theory Spec2Isabelle
  imports Complex_Main "HOL-Library.Char_ord" "HOL-Library.List_Lexorder"
    "HOL-Library.Product_Lexorder"
begin

section \<open>Signature ingestion and enrichment pipeline (analyze\_alpha\_swaps\_v2)\<close>

text \<open>
  A shallow embedding of the pipeline in \<^verbatim>\<open>src/src/validator/analyze_alpha_swaps_v2.py\<close>
  (a Node script): the module-level variables become one \<open>state\<close> record that every
  function takes and returns, the clock (\<^verbatim>\<open>nowMs()\<close>), the pseudo-random draw
  (\<^verbatim>\<open>Math.random()\<close>), the HTTP outcomes (\<^verbatim>\<open>postJson\<close>) and the digest
  (\<^verbatim>\<open>sha256Hex\<close>) are arguments. Times are milliseconds as \<open>nat\<close>, amounts are
  \<open>int\<close> (the source uses BigInt), the sampling probability and the draw are \<open>rat\<close>
  (they are only compared).
\<close>

subsection \<open>Configuration\<close>

record config =
  RUN_SECONDS :: nat
  SUMMARY_FILE :: string
  BATCH_SIZE :: nat
  BATCH_INTERVAL_MS :: nat
  INITIAL_DELAY_MS :: nat
  MAX_MISSING_RETRIES :: nat
  MAX_PENDING :: nat
  INGRESS_SAMPLE_PCT :: rat
  STORE_ENHANCED :: bool

text \<open>The numeric environment variables after \<^verbatim>\<open>Number(...)\<close>, as the script clamps
  them (lines 65-72). Integer-valued settings are modelled; \<^verbatim>\<open>NaN\<close> is not.\<close>

record env =
  env_RUN_SECONDS :: nat
  env_SUMMARY_FILE :: string
  env_BATCH_SIZE :: int
  env_BATCH_INTERVAL_MS :: int
  env_INITIAL_DELAY_MS :: int
  env_MAX_MISSING_RETRIES :: int
  env_MAX_PENDING :: int
  env_INGRESS_SAMPLE_PCT :: rat
  env_STORE_ENHANCED :: bool

definition load_config :: "env \<Rightarrow> config" where
  "load_config e =
     \<lparr> RUN_SECONDS = env_RUN_SECONDS e,
       SUMMARY_FILE = env_SUMMARY_FILE e,
       BATCH_SIZE = nat (max 1 (min 250 (env_BATCH_SIZE e))),
       BATCH_INTERVAL_MS = nat (max 100 (env_BATCH_INTERVAL_MS e)),
       INITIAL_DELAY_MS = nat (max 0 (env_INITIAL_DELAY_MS e)),
       MAX_MISSING_RETRIES = nat (max 0 (env_MAX_MISSING_RETRIES e)),
       MAX_PENDING = nat (max 1000 (env_MAX_PENDING e)),
       INGRESS_SAMPLE_PCT = max 0 (min 1 (env_INGRESS_SAMPLE_PCT e)),
       STORE_ENHANCED = env_STORE_ENHANCED e \<rparr>"

definition default_env :: env where
  "default_env =
     \<lparr> env_RUN_SECONDS = 3600, env_SUMMARY_FILE = ''summary.json'',
       env_BATCH_SIZE = 100, env_BATCH_INTERVAL_MS = 500,
       env_INITIAL_DELAY_MS = 1500, env_MAX_MISSING_RETRIES = 6, env_MAX_PENDING = 50000,
       env_INGRESS_SAMPLE_PCT = 1, env_STORE_ENHANCED = False \<rparr>"

definition clampInt :: "nat \<Rightarrow> nat \<Rightarrow> nat \<Rightarrow> nat" where
  "clampInt n lo hi = max lo (min hi n)"

subsection \<open>JavaScript \<^verbatim>\<open>Map\<close>: an association list in insertion order\<close>

text \<open>\<^verbatim>\<open>set\<close> on a present key keeps its position, on a new key appends;
  \<^verbatim>\<open>delete\<close> removes the key; iteration and \<^verbatim>\<open>size\<close> follow the list.\<close>

type_synonym ('k, 'v) jsmap = "('k \<times> 'v) list"

definition map_has :: "('k, 'v) jsmap \<Rightarrow> 'k \<Rightarrow> bool" where
  "map_has m k = (k \<in> set (map fst m))"

definition map_get :: "('k, 'v) jsmap \<Rightarrow> 'k \<Rightarrow> 'v option" where
  "map_get m k = map_of m k"

primrec map_set :: "'k \<Rightarrow> 'v \<Rightarrow> ('k, 'v) jsmap \<Rightarrow> ('k, 'v) jsmap" where
  "map_set k v [] = [(k, v)]"
| "map_set k v (p # ps) = (if fst p = k then (k, v) # ps else p # map_set k v ps)"

definition map_delete :: "'k \<Rightarrow> ('k, 'v) jsmap \<Rightarrow> ('k, 'v) jsmap" where
  "map_delete k m = filter (\<lambda>p. fst p \<noteq> k) m"

subsection \<open>The enriched record as the script reads it\<close>

text \<open>
  The script reads the response objects through optional chaining and defaults, so the
  model is the typed view those reads give: a missing or falsy string field is the empty
  string, a missing array is the empty list. An argument of \<^verbatim>\<open>BigInt(x || 0)\<close> is
  absent (or falsy), an integer, or a value on which \<^verbatim>\<open>BigInt\<close> throws (a fraction,
  a non-numeric string), carrying the message of the error thrown.
\<close>

record js_error =
  statusCode :: "nat option"
  message :: string

datatype bigint_arg = Absent | IntVal int | NotBigInt string

definition BigInt_or0 :: "bigint_arg \<Rightarrow> js_error + int" where
  "BigInt_or0 x =
     (case x of
        Absent \<Rightarrow> Inr 0
      | IntVal n \<Rightarrow> Inr n
      | NotBigInt msg \<Rightarrow> Inl \<lparr> statusCode = None, message = msg \<rparr>)"

text \<open>\<^verbatim>\<open>rawTokenAmount.tokenAmount\<close>: undefined or null, a value \<^verbatim>\<open>BigInt(String(raw))\<close>
  parses, or one on which it throws (caught at line 414, giving \<^verbatim>\<open>0n\<close>).\<close>

datatype raw_amount = RawMissing | RawInt int | RawUnparsable

record TokenBalanceChange =
  userAccount :: string
  tbc_mint :: string
  tokenAmount :: raw_amount

record AccountData =
  account :: string
  nativeBalanceChange :: bigint_arg
  tokenBalanceChanges :: "TokenBalanceChange list"

record Instruction =
  ix_programId :: string
  innerInstructions :: "string list"

record SwapLegs =
  tokenInputs :: "string list"
  tokenOutputs :: "string list"
  tokenFees :: "string list"

record SwapEvent = SwapLegs +
  innerSwaps :: "SwapLegs list"

record EnhancedTx =
  enh_signature :: string
  enh_fee :: bigint_arg
  enh_feePayer :: string
  enh_slot :: "int option"
  enh_timestamp :: "int option"
  enh_type :: string
  enh_source :: string
  enh_description :: "string option"
  instructions :: "Instruction list"
  accountData :: "AccountData list"
  tokenTransfers :: "string list"
  events_swap :: "SwapEvent option"

subsection \<open>Pending signature buffer\<close>

record PendingEntry =
  seenAtMs :: nat
  hintSlot :: "nat option"
  attempts :: nat
  nextAttemptAtMs :: nat
  source :: "string option"


text \<open>One row of the fingerprint table (\<^verbatim>\<open>fpStats\<close>) and of the program table
  (\<^verbatim>\<open>programStats\<close>).\<close>

record FingerprintStats =
  fingerprint :: string
  firstSeenMs :: nat
  lastSeenMs :: nat
  fp_count :: nat
  uniqueFeePayers :: "string list"
  fp_totalFeeLamports :: int
  fp_totalJitoTipLamports :: int
  fp_totalStableRaw :: int
  fp_maxStableRaw :: int
  exampleSignatures :: "string list"
  examplePrograms :: "string list"
  exampleMints :: "string list"
  exampleTypeSource :: "string option"

record ProgramStats =
  programId :: string
  pg_count :: nat
  pg_totalFeeLamports :: int
  pg_totalJitoTipLamports :: int
  pg_totalStableRaw :: int
  pg_maxStableRaw :: int

text \<open>One line of the durable log (the object passed to \<^verbatim>\<open>outStream.write\<close>).\<close>

record LogRecord =
  rec_signature :: string
  rec_slot :: int
  rec_timestamp :: "int option"
  rec_observedAtMs :: nat
  rec_source :: "string option"
  rec_type :: string
  rec_sourceCategory :: string
  rec_description :: "string option"
  rec_feeLamports :: int
  rec_feePayer :: string
  rec_jitoTipLamports :: int
  rec_jitoTipBreakdown :: "(string, int) jsmap"
  rec_programIdsInteresting :: "string list"
  rec_changedMints :: "string list"
  rec_fingerprint :: string
  rec_ownerMintDeltas :: "(string, (string, int) jsmap) jsmap"
  rec_bestStableOwner :: "string option"
  rec_bestUsdcDeltaRaw :: int
  rec_bestUsdtDeltaRaw :: int
  rec_bestStableDeltaRaw :: int
  rec_feePayerWsolDeltaRaw :: int
  rec_feePayerUsdcDeltaRaw :: int
  rec_feePayerUsdtDeltaRaw :: int
  rec_enhanced :: "EnhancedTx option"

text \<open>The module-level variables (lines 256-269, 459-460, 587) and the log stream.\<close>

record state =
  pending :: "(string, PendingEntry) jsmap"
  pendingOrder :: "string list"
  evictIdx :: nat
  scanIdx :: nat
  ingested :: nat
  sampledOut :: nat
  evicted :: nat
  processed :: nat
  droppedMissing :: nat
  enhancedMissing :: nat
  enhancedRateLimited :: nat
  enhancedOtherErrors :: nat
  fpStats :: "(string, FingerprintStats) jsmap"
  programStats :: "(string, ProgramStats) jsmap"
  outStream :: "LogRecord list"
  inFlight :: bool

definition init_state :: state where
  "init_state =
     \<lparr> pending = [], pendingOrder = [], evictIdx = 0, scanIdx = 0,
       ingested = 0, sampledOut = 0, evicted = 0, processed = 0, droppedMissing = 0,
       enhancedMissing = 0, enhancedRateLimited = 0, enhancedOtherErrors = 0,
       fpStats = [], programStats = [], outStream = [], inFlight = False \<rparr>"

subsection \<open>\<^verbatim>\<open>tryIngestSignature\<close> (lines 271-311)\<close>

text \<open>The eviction loop of lines 286-292: advance \<open>evictIdx\<close> over \<open>pendingOrder\<close> until
  one \<^verbatim>\<open>pending.delete(old)\<close> succeeds or the index runs off the end.\<close>

function evict_loop :: "state \<Rightarrow> state" where
  "evict_loop s =
     (if evictIdx s < length (pendingOrder s) then
        (if map_has (pending s) (pendingOrder s ! evictIdx s)
         then s\<lparr> pending := map_delete (pendingOrder s ! evictIdx s) (pending s),
                 evictIdx := evictIdx s + 1,
                 evicted := evicted s + 1 \<rparr>
         else evict_loop (s\<lparr> evictIdx := evictIdx s + 1 \<rparr>))
      else s)"
  by pat_completeness auto
termination
  by (relation "measure (\<lambda>s. length (pendingOrder s) - evictIdx s)") auto

declare evict_loop.simps [simp del]

text \<open>The periodic compaction of lines 294-298; \<^verbatim>\<open>evictIdx > pendingOrder.length / 2\<close>
  is \<open>length < 2 * evictIdx\<close>.\<close>

definition compact :: "state \<Rightarrow> state" where
  "compact s =
     (if 50000 < evictIdx s \<and> length (pendingOrder s) < 2 * evictIdx s
      then s\<lparr> pendingOrder := drop (evictIdx s) (pendingOrder s),
              scanIdx := scanIdx s - evictIdx s,
              evictIdx := 0 \<rparr>
      else s)"

text \<open>\<^verbatim>\<open>hintSlot || null\<close> and \<^verbatim>\<open>source || null\<close>: a zero slot and an empty
  source are stored as null.\<close>

definition slot_or_null :: "nat option \<Rightarrow> nat option" where
  "slot_or_null h = (case h of None \<Rightarrow> None | Some n \<Rightarrow> (if n = 0 then None else Some n))"

definition str_or_null :: "string \<Rightarrow> string option" where
  "str_or_null x = (if x = [] then None else Some x)"

definition new_entry :: "config \<Rightarrow> nat \<Rightarrow> nat option \<Rightarrow> string \<Rightarrow> PendingEntry" where
  "new_entry cfg t hint src =
     \<lparr> seenAtMs = t, hintSlot = slot_or_null hint, attempts = 0,
       nextAttemptAtMs = t + INITIAL_DELAY_MS cfg, source = str_or_null src \<rparr>"

text \<open>\<open>rnd\<close> is the value of \<^verbatim>\<open>Math.random()\<close> (read only when the sampling
  percentage is below 1), \<open>t\<close> the value of \<^verbatim>\<open>nowMs()\<close>.\<close>

definition tryIngestSignature ::
  "config \<Rightarrow> rat \<Rightarrow> nat \<Rightarrow> string \<Rightarrow> nat option \<Rightarrow> string \<Rightarrow> state \<Rightarrow> state" where
  "tryIngestSignature cfg rnd t sig hint src s =
     (if sig = [] then s
      else if map_has (pending s) sig then s
      else if INGRESS_SAMPLE_PCT cfg < 1 \<and> INGRESS_SAMPLE_PCT cfg < rnd
        then s\<lparr> sampledOut := sampledOut s + 1 \<rparr>
      else
        (let s1 = (if MAX_PENDING cfg \<le> length (pending s) then compact (evict_loop s) else s)
         in s1\<lparr> pending := map_set sig (new_entry cfg t hint src) (pending s1),
                pendingOrder := pendingOrder s1 @ [sig],
                ingested := ingested s1 + 1 \<rparr>))"

subsection \<open>\<^verbatim>\<open>selectReadyBatch\<close> (lines 313-331)\<close>

definition maxScan :: "config \<Rightarrow> nat" where
  "maxScan cfg = clampInt (BATCH_SIZE cfg * 50) 500 20000"

text \<open>The index the loop reads after the wrap-around of line 319, and the two tests of
  lines 324-326 on the signature found there.\<close>

definition scan_pos :: "state \<Rightarrow> nat" where
  "scan_pos s = (if length (pendingOrder s) \<le> scanIdx s then 0 else scanIdx s)"

definition ready_at :: "nat \<Rightarrow> state \<Rightarrow> string \<Rightarrow> bool" where
  "ready_at now s sig =
     (case map_get (pending s) sig of
        None \<Rightarrow> False
      | Some meta \<Rightarrow> \<not> now < nextAttemptAtMs meta)"

text \<open>The scan loop with its three local variables: the state (for \<open>scanIdx\<close>), the batch
  \<open>out\<close> and the number \<open>scanned\<close> of entries examined so far.\<close>

function select_loop ::
  "config \<Rightarrow> nat \<Rightarrow> state \<Rightarrow> string list \<Rightarrow> nat \<Rightarrow> state \<times> string list \<times> nat" where
  "select_loop cfg now s out scanned =
     (if length out < BATCH_SIZE cfg \<and> scanned < maxScan cfg \<and> 0 < length (pendingOrder s)
      then
        select_loop cfg now (s\<lparr> scanIdx := scan_pos s + 1 \<rparr>)
          (if ready_at now s (pendingOrder s ! scan_pos s)
           then out @ [pendingOrder s ! scan_pos s] else out)
          (scanned + 1)
      else (s, out, scanned))"
  by pat_completeness auto
termination
  by (relation "measure (\<lambda>(cfg, now, s, out, scanned). maxScan cfg - scanned)") auto

declare select_loop.simps [simp del]

definition selectReadyBatch :: "config \<Rightarrow> nat \<Rightarrow> state \<Rightarrow> state \<times> string list" where
  "selectReadyBatch cfg now s = (case select_loop cfg now s [] 0 of (s', out, n) \<Rightarrow> (s', out))"


subsection \<open>Constants (lines 98-126)\<close>

definition JITO_TIP_ACCOUNTS :: "string list" where
  "JITO_TIP_ACCOUNTS =
     [''ADaUMid9yfUytqMBgopwjb2DTLSokTSzL1zt6iGPaS49'',
      ''Cw8CFyM9FkoMi7K7Crf6HNQqf4uEMzpKw6QNghXLvLkY'',
      ''HFqU5x63VTqvQss8hp11i4wVV8bD44PvwucfZ2bU7gRe'',
      ''DfXygSm4jCyNCybVYYK6DwvWqjKee8pbDmJGcLWNDXjh'',
      ''96gYZGLnJYVFmbjzopPSU6QiEV5fGqZNyN9nmNhvrZU5'',
      ''ADuUkR4vqLUMWXxW9gh6D6L8pMSawimctcNZ5pGwDcEt'',
      ''3AVi9Tg9Uo68tJfuvoKvqKNWKkC5wPdSSdeBnizKZ6jT'',
      ''DttWaMuVvTiduZRnguLF7jNxTgiMBZ1hyAumKUiL2KRL'']"

definition NOISE_PROGRAMS :: "string list" where
  "NOISE_PROGRAMS =
     [''11111111111111111111111111111111'',
      ''TokenkegQfeZyiNwAJbNbGKPFXCWuBvf9Ss623VQ5DA'',
      ''ATokenGPvbdGVxr1b2hvZbsiqW5xWH25efTNsLJA8knL'',
      ''ComputeBudget111111111111111111111111111111'',
      ''MemoSq4gqABAXKb96qnH8TysNcWxMyWCqXgDLGmfcHr'']"

definition WSOL_MINT :: string where
  "WSOL_MINT = ''So11111111111111111111111111111111111111112''"

definition USDC_MINT :: string where
  "USDC_MINT = ''EPjFWdd5AufqSSqeM2qN1xzybapC8G4wEGGkZwyTDt1v''"

definition USDT_MINT :: string where
  "USDT_MINT = ''Es9vMFrzaCERmJfrF4H2FYD4KCoNkY11McCe8BenwNYB''"

subsection \<open>Extraction (lines 336-454)\<close>

text \<open>\<^verbatim>\<open>Array.from(new Set(arr)).sort()\<close>: distinct elements in ascending order of
  their code units.\<close>

definition sortUnique :: "string list \<Rightarrow> string list" where
  "sortUnique arr = sort (remdups arr)"

definition truthy :: "string list \<Rightarrow> string list" where
  "truthy xs = filter (\<lambda>x. x \<noteq> []) xs"

definition extractPrograms :: "EnhancedTx \<Rightarrow> string list" where
  "extractPrograms enh =
     sortUnique (concat (map (\<lambda>ix. truthy [ix_programId ix] @ truthy (innerInstructions ix))
                             (instructions enh)))"

definition legs_mints :: "'a SwapLegs_scheme \<Rightarrow> string list" where
  "legs_mints l = truthy (tokenInputs l) @ truthy (tokenOutputs l) @ truthy (tokenFees l)"

definition extractChangedMints :: "EnhancedTx \<Rightarrow> string list" where
  "extractChangedMints enh =
     sortUnique
       (concat (map (\<lambda>ad. truthy (map tbc_mint (tokenBalanceChanges ad))) (accountData enh))
        @ truthy (tokenTransfers enh)
        @ (case events_swap enh of
             None \<Rightarrow> []
           | Some swap \<Rightarrow> legs_mints swap @ concat (map legs_mints (innerSwaps swap))))"

text \<open>The loop of \<^verbatim>\<open>extractJitoTip\<close> with its accumulators \<open>tot\<close> (the total) and \<open>breakdown\<close>;
  \<^verbatim>\<open>BigInt\<close> is reached only for an account of the tip set, and may throw.\<close>

fun extractJitoTip_loop ::
  "AccountData list \<Rightarrow> int \<Rightarrow> (string, int) jsmap \<Rightarrow> js_error + (int \<times> (string, int) jsmap)" where
  "extractJitoTip_loop [] tot breakdown = Inr (tot, breakdown)"
| "extractJitoTip_loop (ad # rest) tot breakdown =
     (if account ad \<notin> set JITO_TIP_ACCOUNTS then extractJitoTip_loop rest tot breakdown
      else
        (case BigInt_or0 (nativeBalanceChange ad) of
           Inl e \<Rightarrow> Inl e
         | Inr change \<Rightarrow>
             if 0 < change
             then extractJitoTip_loop rest (tot + change) (map_set (account ad) change breakdown)
             else extractJitoTip_loop rest tot breakdown))"

definition extractJitoTip :: "EnhancedTx \<Rightarrow> js_error + (int \<times> (string, int) jsmap)" where
  "extractJitoTip enh = extractJitoTip_loop (accountData enh) 0 []"

definition add_delta ::
  "(string, (string, int) jsmap) jsmap \<Rightarrow> TokenBalanceChange \<Rightarrow> (string, (string, int) jsmap) jsmap" where
  "add_delta ownerMint c =
     (if userAccount c = [] \<or> tbc_mint c = [] \<or> tokenAmount c = RawMissing then ownerMint
      else
        (let delta = (case tokenAmount c of RawInt n \<Rightarrow> n | _ \<Rightarrow> 0);
             m = (case map_get ownerMint (userAccount c) of None \<Rightarrow> [] | Some m' \<Rightarrow> m');
             old = (case map_get m (tbc_mint c) of None \<Rightarrow> 0 | Some d \<Rightarrow> d)
         in map_set (userAccount c) (map_set (tbc_mint c) (old + delta) m) ownerMint))"

text \<open>The nested \<^verbatim>\<open>Map\<close> that the loop of lines 405-423 builds.\<close>

definition ownerMint_map :: "EnhancedTx \<Rightarrow> (string, (string, int) jsmap) jsmap" where
  "ownerMint_map enh = foldl add_delta [] (concat (map tokenBalanceChanges (accountData enh)))"

text \<open>Lines 426-432 copy the maps into plain objects. The own keys of a plain object
  enumerate with the array indices first (a canonical decimal numeral below \<open>2^32 - 1\<close>),
  in ascending numeric order, and then the other keys in insertion order; an assignment
  to the key \<^verbatim>\<open>__proto__\<close> creates no own property.\<close>

definition is_digit :: "char \<Rightarrow> bool" where
  "is_digit c = (48 \<le> (of_char c :: nat) \<and> (of_char c :: nat) \<le> 57)"

definition dec_value :: "string \<Rightarrow> nat" where
  "dec_value x = foldl (\<lambda>n c. 10 * n + ((of_char c :: nat) - 48)) 0 x"

definition is_array_index :: "string \<Rightarrow> bool" where
  "is_array_index x =
     (x \<noteq> [] \<and> list_all is_digit x \<and> (x = ''0'' \<or> hd x \<noteq> CHR ''0'')
      \<and> dec_value x < 4294967295)"

definition plain_object :: "(string, 'v) jsmap \<Rightarrow> (string, 'v) jsmap" where
  "plain_object m =
     (let own = filter (\<lambda>p. fst p \<noteq> ''__proto__'') m
      in sort_key (\<lambda>p. dec_value (fst p)) (filter (\<lambda>p. is_array_index (fst p)) own)
         @ filter (\<lambda>p. \<not> is_array_index (fst p)) own)"

definition extractOwnerMintDeltas :: "EnhancedTx \<Rightarrow> (string, (string, int) jsmap) jsmap" where
  "extractOwnerMintDeltas enh =
     plain_object (map (\<lambda>p. (fst p, plain_object (snd p))) (ownerMint_map enh))"

text \<open>\<^verbatim>\<open>ownerMintDeltas[feePayer]\<close> (lines 705-707): the object stored for that owner,
  as an own property or, for the key \<^verbatim>\<open>__proto__\<close>, as the prototype that the
  assignment to it set; no object otherwise.\<close>

definition owner_deltas :: "EnhancedTx \<Rightarrow> string \<Rightarrow> (string, int) jsmap" where
  "owner_deltas enh owner =
     (case map_get (ownerMint_map enh) owner of None \<Rightarrow> [] | Some m \<Rightarrow> plain_object m)"

record Best =
  bestOwner :: "string option"
  bestUsdc :: int
  bestUsdt :: int
  bestStable :: int

definition stableRaw :: "int \<Rightarrow> int \<Rightarrow> int" where
  "stableRaw usdc usdt = usdc + usdt"

definition mint_delta :: "(string, int) jsmap \<Rightarrow> string \<Rightarrow> int" where
  "mint_delta mints k = (case map_get mints k of None \<Rightarrow> 0 | Some d \<Rightarrow> d)"

definition best_step :: "Best \<Rightarrow> string \<times> (string, int) jsmap \<Rightarrow> Best" where
  "best_step b om =
     (let usdc = mint_delta (snd om) USDC_MINT;
          usdt = mint_delta (snd om) USDT_MINT;
          sv = stableRaw usdc usdt
      in if bestStable b < sv
         then \<lparr> bestOwner = Some (fst om), bestUsdc = usdc, bestUsdt = usdt, bestStable = sv \<rparr>
         else b)"

definition bestStableDelta :: "(string, (string, int) jsmap) jsmap \<Rightarrow> Best" where
  "bestStableDelta ownerMintDeltas =
     foldl best_step \<lparr> bestOwner = None, bestUsdc = 0, bestUsdt = 0, bestStable = 0 \<rparr>
       ownerMintDeltas"


subsection \<open>Fingerprint (lines 647-657)\<close>

text \<open>\<^verbatim>\<open>JSON.stringify\<close> of a string: quotation mark, reverse solidus and the control
  characters are escaped, every other character stands for itself. Characters are the
  8-bit \<open>char\<close> of HOL (identifiers are base58 text).\<close>

definition dquote :: char where
  "dquote = CHR 0x22"

definition bslash :: char where
  "bslash = CHR 0x5C"

definition hex_digit :: "nat \<Rightarrow> char" where
  "hex_digit n = ''0123456789abcdef'' ! (n mod 16)"

definition json_escape_char :: "char \<Rightarrow> string" where
  "json_escape_char c =
     (if c = dquote then [bslash, dquote]
      else if c = bslash then [bslash, bslash]
      else if c = CHR 0x08 then [bslash, CHR ''b'']
      else if c = CHR 0x0C then [bslash, CHR ''f'']
      else if c = CHR 0x0A then [bslash, CHR ''n'']
      else if c = CHR 0x0D then [bslash, CHR ''r'']
      else if c = CHR 0x09 then [bslash, CHR ''t'']
      else if (of_char c :: nat) < 32
        then [bslash, CHR ''u'', CHR ''0'', CHR ''0'',
              hex_digit ((of_char c :: nat) div 16), hex_digit ((of_char c :: nat) mod 16)]
      else [c])"

definition json_string :: "string \<Rightarrow> string" where
  "json_string x = dquote # concat (map json_escape_char x) @ [dquote]"

fun json_elems :: "string list \<Rightarrow> string" where
  "json_elems [] = []"
| "json_elems [x] = json_string x"
| "json_elems (x # y # ys) = json_string x @ '','' @ json_elems (y # ys)"

definition json_array :: "string list \<Rightarrow> string" where
  "json_array xs = ''['' @ json_elems xs @ '']''"

text \<open>\<^verbatim>\<open>JSON.stringify({ type, source, programs, mints })\<close>.\<close>

definition fpPayload :: "string \<Rightarrow> string \<Rightarrow> string list \<Rightarrow> string list \<Rightarrow> string" where
  "fpPayload ty src programs mints =
     ''{'' @ json_string ''type'' @ '':'' @ json_string ty
     @ '','' @ json_string ''source'' @ '':'' @ json_string src
     @ '','' @ json_string ''programs'' @ '':'' @ json_array programs
     @ '','' @ json_string ''mints'' @ '':'' @ json_array mints @ ''}''"

text \<open>\<open>sha256Hex\<close> is the digest of Node's \<^verbatim>\<open>crypto\<close> library, an argument here.\<close>

definition fingerprint_of ::
  "(string \<Rightarrow> string) \<Rightarrow> string \<Rightarrow> string \<Rightarrow> string list \<Rightarrow> string list \<Rightarrow> string" where
  "fingerprint_of sha256Hex ty src programsInteresting changedMints =
     sha256Hex (fpPayload ty src (take 32 programsInteresting) (take 32 changedMints))"

definition programsInteresting_of :: "EnhancedTx \<Rightarrow> string list" where
  "programsInteresting_of enh = filter (\<lambda>p. p \<notin> set NOISE_PROGRAMS) (extractPrograms enh)"

text \<open>The text that is hashed for a record (\<^verbatim>\<open>fpPayload\<close>, lines 651-656).\<close>

definition enh_payload :: "EnhancedTx \<Rightarrow> string" where
  "enh_payload enh =
     fpPayload (enh_type enh) (enh_source enh)
       (take 32 (programsInteresting_of enh)) (take 32 (extractChangedMints enh))"

definition enh_fingerprint :: "(string \<Rightarrow> string) \<Rightarrow> EnhancedTx \<Rightarrow> string" where
  "enh_fingerprint sha256Hex enh =
     fingerprint_of sha256Hex (enh_type enh) (enh_source enh)
       (programsInteresting_of enh) (extractChangedMints enh)"

subsection \<open>Aggregation (lines 459-509)\<close>

record Delta =
  fee :: int
  tip :: int
  stable :: int

definition bumpProgram ::
  "string \<Rightarrow> Delta \<Rightarrow> (string, ProgramStats) jsmap \<Rightarrow> (string, ProgramStats) jsmap" where
  "bumpProgram pid delta tbl =
     (let s0 = (case map_get tbl pid of
                  Some r \<Rightarrow> r
                | None \<Rightarrow> \<lparr> programId = pid, pg_count = 0, pg_totalFeeLamports = 0,
                            pg_totalJitoTipLamports = 0, pg_totalStableRaw = 0,
                            pg_maxStableRaw = 0 \<rparr>)
      in map_set pid
           (s0\<lparr> pg_count := pg_count s0 + 1,
                pg_totalFeeLamports := pg_totalFeeLamports s0 + fee delta,
                pg_totalJitoTipLamports := pg_totalJitoTipLamports s0 + tip delta,
                pg_totalStableRaw := pg_totalStableRaw s0 + stable delta,
                pg_maxStableRaw := (if pg_maxStableRaw s0 < stable delta then stable delta
                                    else pg_maxStableRaw s0) \<rparr>)
           tbl)"

record Examples =
  ex_sig :: string
  ex_programs :: "string list"
  ex_mints :: "string list"
  ex_typeSource :: string

definition set_add :: "'a \<Rightarrow> 'a list \<Rightarrow> 'a list" where
  "set_add x xs = (if x \<in> set xs then xs else xs @ [x])"

definition bumpFingerprint ::
  "nat \<Rightarrow> string \<Rightarrow> string \<Rightarrow> Delta \<Rightarrow> Examples \<Rightarrow>
   (string, FingerprintStats) jsmap \<Rightarrow> (string, FingerprintStats) jsmap" where
  "bumpFingerprint t fp feePayer delta examples tbl =
     (let s0 = (case map_get tbl fp of
                  Some r \<Rightarrow> r
                | None \<Rightarrow> \<lparr> fingerprint = fp, firstSeenMs = t, lastSeenMs = t, fp_count = 0,
                            uniqueFeePayers = [], fp_totalFeeLamports = 0,
                            fp_totalJitoTipLamports = 0, fp_totalStableRaw = 0,
                            fp_maxStableRaw = 0, exampleSignatures = [], examplePrograms = [],
                            exampleMints = [],
                            exampleTypeSource = str_or_null (ex_typeSource examples) \<rparr>)
      in map_set fp
           (s0\<lparr> lastSeenMs := t,
                fp_count := fp_count s0 + 1,
                uniqueFeePayers := set_add feePayer (uniqueFeePayers s0),
                fp_totalFeeLamports := fp_totalFeeLamports s0 + fee delta,
                fp_totalJitoTipLamports := fp_totalJitoTipLamports s0 + tip delta,
                fp_totalStableRaw := fp_totalStableRaw s0 + stable delta,
                fp_maxStableRaw := (if fp_maxStableRaw s0 < stable delta then stable delta
                                    else fp_maxStableRaw s0),
                exampleSignatures := (if length (exampleSignatures s0) < 5
                                      then exampleSignatures s0 @ [ex_sig examples]
                                      else exampleSignatures s0),
                examplePrograms := (if examplePrograms s0 = [] then take 16 (ex_programs examples)
                                    else examplePrograms s0),
                exampleMints := (if exampleMints s0 = [] then take 16 (ex_mints examples)
                                 else exampleMints s0) \<rparr>)
           tbl)"


subsection \<open>\<^verbatim>\<open>fetchEnhancedBatch\<close> (lines 223-248)\<close>

text \<open>The outcome of one \<^verbatim>\<open>postJson\<close> call: the parsed body (an array of records, or
  something that is not an array) or a rejection.\<close>

datatype post_result = Resolved "EnhancedTx list option" | Rejected js_error

definition toLowerCase :: "string \<Rightarrow> string" where
  "toLowerCase x =
     map (\<lambda>c. if 65 \<le> (of_char c :: nat) \<and> (of_char c :: nat) \<le> 90
               then char_of ((of_char c :: nat) + 32) else c) x"

fun str_includes :: "string \<Rightarrow> string \<Rightarrow> bool" where
  "str_includes [] pat = (pat = [])"
| "str_includes (c # cs) pat = (take (length pat) (c # cs) = pat \<or> str_includes cs pat)"

definition retryable :: "js_error \<Rightarrow> bool" where
  "retryable e = (statusCode e = Some 429 \<or> str_includes (toLowerCase (message e)) ''timeout'')"

text \<open>The \<^verbatim>\<open>for\<close> loop: \<open>n\<close> attempts are left, \<open>attempt\<close> is the loop counter, \<open>backoff\<close>
  the current delay. The result comes with the delays slept, in order. Line 247, after
  the loop, returns the empty array.\<close>

fun fetch_loop ::
  "(nat \<Rightarrow> post_result) \<Rightarrow> nat \<Rightarrow> nat \<Rightarrow> nat \<Rightarrow> (js_error + EnhancedTx list) \<times> nat list" where
  "fetch_loop post 0 attempt backoff = (Inr [], [])"
| "fetch_loop post (Suc n) attempt backoff =
     (case post attempt of
        Resolved res \<Rightarrow> (Inr (case res of None \<Rightarrow> [] | Some txs \<Rightarrow> txs), [])
      | Rejected e \<Rightarrow>
          if retryable e
          then (case fetch_loop post n (attempt + 1) (min 10000 (backoff * 2)) of
                  (r, slept) \<Rightarrow> (r, backoff # slept))
          else (Inl e, []))"

definition fetchEnhancedBatch ::
  "(string list \<Rightarrow> nat \<Rightarrow> post_result) \<Rightarrow> string list \<Rightarrow> (js_error + EnhancedTx list) \<times> nat list" where
  "fetchEnhancedBatch postJson signatures = fetch_loop (postJson signatures) 6 0 250"

subsection \<open>\<^verbatim>\<open>batcherTick\<close> (lines 589-740)\<close>

text \<open>\<^verbatim>\<open>bySig\<close>: the last response record carrying a (non-empty) signature wins.\<close>

definition bySig_get :: "EnhancedTx list \<Rightarrow> string \<Rightarrow> EnhancedTx option" where
  "bySig_get enhanced sig =
     find (\<lambda>tx. enh_signature tx \<noteq> [] \<and> enh_signature tx = sig) (rev enhanced)"

text \<open>Lines 616-631, the branch for a signature that is missing from the response
  (\<^verbatim>\<open>markMissing\<close> in the specification). \<open>t\<close> is \<^verbatim>\<open>nowMs()\<close>.\<close>

definition markMissing :: "config \<Rightarrow> nat \<Rightarrow> string \<Rightarrow> PendingEntry \<Rightarrow> state \<Rightarrow> state" where
  "markMissing cfg t sig meta s =
     (let s1 = s\<lparr> enhancedMissing := enhancedMissing s + 1 \<rparr>;
          meta1 = meta\<lparr> attempts := attempts meta + 1 \<rparr>
      in if MAX_MISSING_RETRIES cfg < attempts meta1
         then s1\<lparr> pending := map_delete sig (pending s1),
                  droppedMissing := droppedMissing s1 + 1 \<rparr>
         else s1\<lparr> pending :=
                    map_set sig
                      (meta1\<lparr> nextAttemptAtMs := t + min 20000 (500 * 2 ^ attempts meta1) \<rparr>)
                      (pending s1) \<rparr>)"

text \<open>The log record of lines 673-711, from what lines 634-657 computed.\<close>

definition make_record ::
  "(string \<Rightarrow> string) \<Rightarrow> config \<Rightarrow> string \<Rightarrow> PendingEntry \<Rightarrow> EnhancedTx \<Rightarrow> int \<Rightarrow> int
   \<Rightarrow> (string, int) jsmap \<Rightarrow> LogRecord" where
  "make_record sha256Hex cfg sig meta enh feeLamports tipTotal tipBreakdown =
     (let feePayer = enh_feePayer enh;
          ownerMintDeltas = extractOwnerMintDeltas enh;
          best = bestStableDelta ownerMintDeltas;
          feePayerDeltas = owner_deltas enh feePayer
      in \<lparr> rec_signature = sig,
           rec_slot = (case enh_slot enh of
                         Some n \<Rightarrow> n
                       | None \<Rightarrow> (case hintSlot meta of Some h \<Rightarrow> int h | None \<Rightarrow> - 1)),
           rec_timestamp = enh_timestamp enh,
           rec_observedAtMs = seenAtMs meta, rec_source = source meta,
           rec_type = enh_type enh, rec_sourceCategory = enh_source enh,
           rec_description = enh_description enh,
           rec_feeLamports = feeLamports, rec_feePayer = feePayer,
           rec_jitoTipLamports = tipTotal, rec_jitoTipBreakdown = tipBreakdown,
           rec_programIdsInteresting = programsInteresting_of enh,
           rec_changedMints = extractChangedMints enh,
           rec_fingerprint = enh_fingerprint sha256Hex enh,
           rec_ownerMintDeltas = ownerMintDeltas,
           rec_bestStableOwner = bestOwner best,
           rec_bestUsdcDeltaRaw = bestUsdc best,
           rec_bestUsdtDeltaRaw = bestUsdt best,
           rec_bestStableDeltaRaw = bestStable best,
           rec_feePayerWsolDeltaRaw = mint_delta feePayerDeltas WSOL_MINT,
           rec_feePayerUsdcDeltaRaw = mint_delta feePayerDeltas USDC_MINT,
           rec_feePayerUsdtDeltaRaw = mint_delta feePayerDeltas USDT_MINT,
           rec_enhanced = (if STORE_ENHANCED cfg then Some enh else None) \<rparr>)"

text \<open>Lines 633-717, the branch for a signature the response resolved. Both calls of
  \<^verbatim>\<open>BigInt\<close> that can throw come before the first write to the state.\<close>

definition processEnhanced ::
  "(string \<Rightarrow> string) \<Rightarrow> config \<Rightarrow> nat \<Rightarrow> string \<Rightarrow> PendingEntry \<Rightarrow> EnhancedTx \<Rightarrow> state
   \<Rightarrow> js_error + state" where
  "processEnhanced sha256Hex cfg t sig meta enh s =
     (case BigInt_or0 (enh_fee enh) of
        Inl e \<Rightarrow> Inl e
      | Inr feeLamports \<Rightarrow>
     (case extractJitoTip enh of
        Inl e \<Rightarrow> Inl e
      | Inr (tipTotal, tipBreakdown) \<Rightarrow>
        (let programsInteresting = programsInteresting_of enh;
             changedMints = extractChangedMints enh;
             best = bestStableDelta (extractOwnerMintDeltas enh);
             typeSource = enh_type enh @ '':'' @ enh_source enh;
             delta = \<lparr> fee = feeLamports, tip = tipTotal, stable = bestStable best \<rparr>;
             s1 = (if 0 < bestStable best \<or> 0 < tipTotal
                   then s\<lparr> fpStats :=
                             bumpFingerprint t (enh_fingerprint sha256Hex enh) (enh_feePayer enh)
                               delta
                               \<lparr> ex_sig = sig, ex_programs = programsInteresting,
                                 ex_mints = changedMints, ex_typeSource = typeSource \<rparr>
                               (fpStats s),
                           programStats :=
                             foldl (\<lambda>tbl pid. bumpProgram pid delta tbl) (programStats s)
                               programsInteresting \<rparr>
                   else s)
         in Inr (s1\<lparr> outStream :=
                       outStream s1
                       @ [make_record sha256Hex cfg sig meta enh feeLamports tipTotal tipBreakdown],
                     processed := processed s1 + 1,
                     pending := map_delete sig (pending s1) \<rparr>))))"

text \<open>One iteration of the loop over the requested signatures (lines 611-718): the
  signature is skipped when it is no longer pending, marked missing when the response
  lacks it, processed otherwise. \<open>t\<close> is \<^verbatim>\<open>nowMs()\<close> during the iteration.\<close>

definition process_one ::
  "(string \<Rightarrow> string) \<Rightarrow> config \<Rightarrow> nat \<Rightarrow> EnhancedTx list \<Rightarrow> string \<Rightarrow> state
   \<Rightarrow> js_error + state" where
  "process_one sha256Hex cfg t enhanced sig s =
     (case map_get (pending s) sig of
        None \<Rightarrow> Inr s
      | Some meta \<Rightarrow>
          (case bySig_get enhanced sig of
             None \<Rightarrow> Inr (markMissing cfg t sig meta s)
           | Some enh \<Rightarrow> processEnhanced sha256Hex cfg t sig meta enh s))"

text \<open>The loop: \<open>clk i\<close> is the clock during the \<open>i\<close>-th iteration. An exception leaves
  the loop with the state as it is at that point.\<close>

fun process_sigs ::
  "(string \<Rightarrow> string) \<Rightarrow> config \<Rightarrow> (nat \<Rightarrow> nat) \<Rightarrow> EnhancedTx list \<Rightarrow> nat \<Rightarrow> string list
   \<Rightarrow> state \<Rightarrow> js_error option \<times> state" where
  "process_sigs sha256Hex cfg clk enhanced i [] s = (None, s)"
| "process_sigs sha256Hex cfg clk enhanced i (sig # rest) s =
     (case process_one sha256Hex cfg (clk i) enhanced sig s of
        Inl e \<Rightarrow> (Some e, s)
      | Inr s' \<Rightarrow> process_sigs sha256Hex cfg clk enhanced (i + 1) rest s')"

text \<open>The \<^verbatim>\<open>catch\<close> block (lines 719-736; \<^verbatim>\<open>markFailed\<close> in the specification):
  one error counter, then every selected signature that is still pending is pushed to
  \<open>max(current, now + 1000)\<close>. \<open>tnow\<close> is \<^verbatim>\<open>nowMs()\<close>.\<close>

definition reschedule :: "nat \<Rightarrow> state \<Rightarrow> string \<Rightarrow> state" where
  "reschedule t s sig =
     (case map_get (pending s) sig of
        None \<Rightarrow> s
      | Some meta \<Rightarrow>
          s\<lparr> pending :=
               map_set sig (meta\<lparr> nextAttemptAtMs := max (nextAttemptAtMs meta) t \<rparr>)
                 (pending s) \<rparr>)"

definition markFailed :: "js_error \<Rightarrow> nat \<Rightarrow> string list \<Rightarrow> state \<Rightarrow> state" where
  "markFailed e tnow sigs s =
     (let s1 = (if statusCode e = Some 429 \<or> str_includes (message e) ''429''
                then s\<lparr> enhancedRateLimited := enhancedRateLimited s + 1 \<rparr>
                else s\<lparr> enhancedOtherErrors := enhancedOtherErrors s + 1 \<rparr>)
      in foldl (reschedule (tnow + 1000)) s1 sigs)"

text \<open>The part of the tick after the \<^verbatim>\<open>await\<close>: \<open>res\<close> is what
  \<^verbatim>\<open>fetchEnhancedBatch\<close> gave, a thrown error or the response.\<close>

definition batcherFinish ::
  "(string \<Rightarrow> string) \<Rightarrow> config \<Rightarrow> (nat \<Rightarrow> nat) \<Rightarrow> nat \<Rightarrow> string list
   \<Rightarrow> js_error + EnhancedTx list \<Rightarrow> state \<Rightarrow> state" where
  "batcherFinish sha256Hex cfg clk tnow sigs res s =
     (let s' = (case res of
                  Inl e \<Rightarrow> markFailed e tnow sigs s
                | Inr enhanced \<Rightarrow>
                    (case process_sigs sha256Hex cfg clk enhanced 0 sigs s of
                       (None, s2) \<Rightarrow> s2
                     | (Some e, s2) \<Rightarrow> markFailed e tnow sigs s2))
      in s'\<lparr> inFlight := False \<rparr>)"

text \<open>The whole tick, run without interruption: \<open>now\<close> is the first \<^verbatim>\<open>nowMs()\<close>,
  \<open>postJson\<close> the outcomes of the HTTP attempts.\<close>

definition batcherTick ::
  "(string \<Rightarrow> string) \<Rightarrow> config \<Rightarrow> (string list \<Rightarrow> nat \<Rightarrow> post_result) \<Rightarrow> nat \<Rightarrow> nat
   \<Rightarrow> (nat \<Rightarrow> nat) \<Rightarrow> nat \<Rightarrow> state \<Rightarrow> state" where
  "batcherTick sha256Hex cfg postJson stopAtMs now clk tnow s =
     (if inFlight s then s
      else if length (pending s) = 0 then s
      else if stopAtMs \<le> now then s
      else
        (case selectReadyBatch cfg now s of
           (s1, sigs) \<Rightarrow>
             if sigs = [] then s1
             else batcherFinish sha256Hex cfg clk tnow sigs
                    (fst (fetchEnhancedBatch postJson sigs)) (s1\<lparr> inFlight := True \<rparr>)))"


subsection \<open>\<^verbatim>\<open>writeSummary\<close> (lines 511-582)\<close>

record FpRow =
  row_fingerprint :: string
  row_firstSeen :: nat
  row_lastSeen :: nat
  row_count :: nat
  row_uniqueFeePayers :: nat
  row_totalFeeLamports :: int
  row_totalJitoTipLamports :: int
  row_totalStableRaw :: int
  row_maxStableRaw :: int
  row_exampleTypeSource :: "string option"
  row_exampleSignatures :: "string list"
  row_examplePrograms :: "string list"
  row_exampleMints :: "string list"

definition fp_row :: "FingerprintStats \<Rightarrow> FpRow" where
  "fp_row r =
     \<lparr> row_fingerprint = fingerprint r, row_firstSeen = firstSeenMs r,
       row_lastSeen = lastSeenMs r, row_count = fp_count r,
       row_uniqueFeePayers = length (uniqueFeePayers r),
       row_totalFeeLamports = fp_totalFeeLamports r,
       row_totalJitoTipLamports = fp_totalJitoTipLamports r,
       row_totalStableRaw = fp_totalStableRaw r, row_maxStableRaw = fp_maxStableRaw r,
       row_exampleTypeSource = exampleTypeSource r,
       row_exampleSignatures = exampleSignatures r,
       row_examplePrograms = examplePrograms r, row_exampleMints = exampleMints r \<rparr>"

record Counters =
  c_ingested :: nat
  c_sampledOut :: nat
  c_evicted :: nat
  c_processed :: nat
  c_droppedMissing :: nat
  c_enhancedMissing :: nat
  c_enhancedRateLimited :: nat
  c_enhancedOtherErrors :: nat
  c_pending :: nat

record Summary =
  schema :: string
  generatedAt :: nat
  sum_config :: config
  counters :: Counters
  topFingerprintsByMaxStable :: "FpRow list"
  topProgramsByTotalStable :: "ProgramStats list"

text \<open>Both comparators order by the first number descending, then by the count
  descending; \<^verbatim>\<open>Array.prototype.sort\<close> is stable, as \<open>sort_key\<close> is.\<close>

definition summary_of :: "config \<Rightarrow> nat \<Rightarrow> state \<Rightarrow> Summary" where
  "summary_of cfg t s =
     (let fps = sort_key (\<lambda>r. (- row_maxStableRaw r, - int (row_count r)))
                  (map (\<lambda>kv. fp_row (snd kv)) (fpStats s));
          progs = sort_key (\<lambda>r. (- pg_totalStableRaw r, - int (pg_count r)))
                    (map snd (programStats s))
      in \<lparr> schema = ''alpha_mev_surface_summary_v2'',
           generatedAt = t,
           sum_config = cfg,
           counters =
             \<lparr> c_ingested = ingested s, c_sampledOut = sampledOut s, c_evicted = evicted s,
               c_processed = processed s, c_droppedMissing = droppedMissing s,
               c_enhancedMissing = enhancedMissing s,
               c_enhancedRateLimited = enhancedRateLimited s,
               c_enhancedOtherErrors = enhancedOtherErrors s,
               c_pending = length (pending s) \<rparr>,
           topFingerprintsByMaxStable = take 50 fps,
           topProgramsByTotalStable = take 50 progs \<rparr>)"

text \<open>The calls a function makes on the file system, in order. \<^verbatim>\<open>writeSummary\<close> makes
  one: \<^verbatim>\<open>fs.writeFileSync(SUMMARY_FILE, JSON.stringify(summary, null, 2))\<close>; the
  serialised text is represented by the summary it serialises.\<close>

datatype fs_call = WriteFileSync string Summary | RenameSync string string

definition writeSummary :: "config \<Rightarrow> nat \<Rightarrow> state \<Rightarrow> fs_call list" where
  "writeSummary cfg t s = [WriteFileSync (SUMMARY_FILE cfg) (summary_of cfg t s)]"

text \<open>The mechanism the specification describes for the snapshot, for comparison with
  the calls of \<^verbatim>\<open>writeSummary\<close>: the text goes to a temporary file, which is then
  renamed over the snapshot path.\<close>

fun spec_temp_then_rename :: "string \<Rightarrow> fs_call list \<Rightarrow> bool" where
  "spec_temp_then_rename path [WriteFileSync tmp body, RenameSync from to] =
     (tmp \<noteq> path \<and> from = tmp \<and> to = path)"
| "spec_temp_then_rename path calls = False"


subsection \<open>Runs of ingest calls\<close>

text \<open>One call of \<^verbatim>\<open>tryIngestSignature\<close> with what it reads from its environment: the
  arguments, the random draw and the clock.\<close>

record ingest_call =
  call_sig :: string
  call_hint :: "nat option"
  call_source :: string
  call_rnd :: rat
  call_now :: nat

definition ingest :: "config \<Rightarrow> state \<Rightarrow> ingest_call \<Rightarrow> state" where
  "ingest cfg s c =
     tryIngestSignature cfg (call_rnd c) (call_now c) (call_sig c) (call_hint c) (call_source c) s"

definition ingest_all :: "config \<Rightarrow> ingest_call list \<Rightarrow> state" where
  "ingest_all cfg calls = foldl (ingest cfg) init_state calls"

text \<open>A call is accepted when it passes the three early returns of lines 272-281.\<close>

definition accepted :: "config \<Rightarrow> state \<Rightarrow> ingest_call \<Rightarrow> bool" where
  "accepted cfg s c =
     (call_sig c \<noteq> [] \<and> \<not> map_has (pending s) (call_sig c)
      \<and> \<not> (INGRESS_SAMPLE_PCT cfg < 1 \<and> INGRESS_SAMPLE_PCT cfg < call_rnd c))"

definition entry_of :: "config \<Rightarrow> ingest_call \<Rightarrow> string \<times> PendingEntry" where
  "entry_of cfg c = (call_sig c, new_entry cfg (call_now c) (call_hint c) (call_source c))"

text \<open>What holds of the buffer after any run of ingest calls: the keys of \<open>pending\<close>, in
  insertion order, are the part of \<open>pendingOrder\<close> from \<open>evictIdx\<close> on.\<close>

definition ingest_inv :: "config \<Rightarrow> state \<Rightarrow> bool" where
  "ingest_inv cfg s =
     (evictIdx s \<le> length (pendingOrder s)
      \<and> map fst (pending s) = drop (evictIdx s) (pendingOrder s)
      \<and> distinct (map fst (pending s))
      \<and> length (pending s) \<le> MAX_PENDING cfg)"


subsection \<open>Interleaved runs\<close>

text \<open>The states the script can be in when ingest calls interleave with ticks: a tick is
  cut at its \<^verbatim>\<open>await\<close> into the selection (with the in-flight flag set or not) and
  the part after the response, and ingest calls may fall in between.\<close>

inductive reachable :: "config \<Rightarrow> state \<Rightarrow> bool" for cfg :: config where
  reach_init: "reachable cfg init_state"
| reach_ingest: "reachable cfg s \<Longrightarrow> reachable cfg (ingest cfg s c)"
| reach_select: "reachable cfg s \<Longrightarrow> reachable cfg (fst (selectReadyBatch cfg now s))"
| reach_flag: "reachable cfg s \<Longrightarrow> reachable cfg (s\<lparr> inFlight := b \<rparr>)"
| reach_finish:
    "reachable cfg s \<Longrightarrow> reachable cfg (batcherFinish sha256Hex cfg clk tnow sigs res s)"

text \<open>What holds of the buffer in all of them: every pending signature is named in
  \<open>pendingOrder\<close> at or after \<open>evictIdx\<close>.\<close>

definition buffer_inv :: "config \<Rightarrow> state \<Rightarrow> bool" where
  "buffer_inv cfg s =
     (evictIdx s \<le> length (pendingOrder s)
      \<and> set (map fst (pending s)) \<subseteq> set (drop (evictIdx s) (pendingOrder s))
      \<and> length (pending s) \<le> MAX_PENDING cfg)"

text \<open>A step that leaves the order index alone and adds no entry to the buffer.\<close>

definition no_growth :: "state \<Rightarrow> state \<Rightarrow> bool" where
  "no_growth s s' =
     (pendingOrder s' = pendingOrder s \<and> evictIdx s' = evictIdx s
      \<and> set (map fst (pending s')) \<subseteq> set (map fst (pending s))
      \<and> length (pending s') \<le> length (pending s))"

subsection \<open>Concrete inputs\<close>

text \<open>A buffer filled to the smallest capacity the script allows (1000), by a thousand
  calls with distinct signatures, and one more call.\<close>

definition cfg1000 :: config where
  "cfg1000 = load_config (default_env\<lparr> env_MAX_PENDING := 1000 \<rparr>)"

definition full_calls :: "ingest_call list" where
  "full_calls =
     map (\<lambda>i. \<lparr> call_sig = replicate (Suc i) CHR ''1'', call_hint = Some 7,
                call_source = ''jito_tip_program'', call_rnd = 0, call_now = i \<rparr>) [0..<1000]"

definition late_call :: ingest_call where
  "late_call = \<lparr> call_sig = ''5VERv8'', call_hint = Some 8,
                 call_source = ''jito_tip_program'', call_rnd = 0, call_now = 1000 \<rparr>"

text \<open>The default configuration, and one with a batch of one signature; a first call,
  and the state it leaves when it is the only call.\<close>

definition cfg_default :: config where
  "cfg_default = load_config default_env"

definition cfg_batch1 :: config where
  "cfg_batch1 = load_config (default_env\<lparr> env_BATCH_SIZE := 1 \<rparr>)"

definition first_call :: ingest_call where
  "first_call = \<lparr> call_sig = ''5VERv8'', call_hint = Some 8,
                  call_source = ''jito_tip_program'', call_rnd = 0, call_now = 0 \<rparr>"

definition one_pending :: state where
  "one_pending =
     init_state\<lparr> pending := [(''5VERv8'', \<lparr> seenAtMs = 0, hintSlot = Some 8, attempts = 0,
                                 nextAttemptAtMs = 1500, source = Some ''jito_tip_program'' \<rparr>)],
                 pendingOrder := [''5VERv8''], ingested := 1 \<rparr>"

text \<open>Sampling switched off entirely (\<^verbatim>\<open>INGRESS_SAMPLE_PCT=0\<close>).\<close>

definition cfg_sample0 :: config where
  "cfg_sample0 = load_config (default_env\<lparr> env_INGRESS_SAMPLE_PCT := 0 \<rparr>)"

text \<open>An endpoint that answers every attempt with status 429, as \<^verbatim>\<open>postJson\<close> rejects
  it (lines 187-192).\<close>

definition rate_limited :: "string list \<Rightarrow> nat \<Rightarrow> post_result" where
  "rate_limited sigs attempt =
     Rejected \<lparr> statusCode = Some 429, message = ''HTTP 429 rate limited'' \<rparr>"

text \<open>The step of a signature that a response lacks: \<open>process_one\<close> on an empty
  response, which cannot throw.\<close>

definition missing_outcome :: "config \<Rightarrow> string \<Rightarrow> state \<Rightarrow> nat \<Rightarrow> state" where
  "missing_outcome cfg sig s t =
     (case process_one id cfg t [] sig s of Inr s' \<Rightarrow> s' | Inl e \<Rightarrow> s)"

text \<open>The count of a row of either table, 0 when the table has no such row.\<close>

definition fp_count_of :: "(string, FingerprintStats) jsmap \<Rightarrow> string \<Rightarrow> nat" where
  "fp_count_of tbl fp = (case map_get tbl fp of None \<Rightarrow> 0 | Some r \<Rightarrow> fp_count r)"

definition pg_count_of :: "(string, ProgramStats) jsmap \<Rightarrow> string \<Rightarrow> nat" where
  "pg_count_of tbl pid = (case map_get tbl pid of None \<Rightarrow> 0 | Some r \<Rightarrow> pg_count r)"

text \<open>A response record for the signature of \<open>first_call\<close>: one instruction of one
  program, a tip of 10000 lamports to a tip account, and nothing else.\<close>

definition tipped_tx :: EnhancedTx where
  "tipped_tx =
     \<lparr> enh_signature = ''5VERv8'', enh_fee = IntVal 5000, enh_feePayer = ''payer1'',
       enh_slot = Some 9, enh_timestamp = Some 1700000000, enh_type = ''SWAP'',
       enh_source = ''JUPITER'', enh_description = None,
       instructions =
         [\<lparr> ix_programId = ''JUP6LkbZbjS1jKKwapdHNy74zcZ3tLUZoi5QNyVTaV4'',
            innerInstructions = [] \<rparr>],
       accountData =
         [\<lparr> account = ''96gYZGLnJYVFmbjzopPSU6QiEV5fGqZNyN9nmNhvrZU5'',
            nativeBalanceChange = IntVal 10000, tokenBalanceChanges = [] \<rparr>],
       tokenTransfers = [], events_swap = None \<rparr>"

text \<open>The same record without the tip: no evidence of value.\<close>

definition plain_tx :: EnhancedTx where
  "plain_tx = tipped_tx\<lparr> accountData := [] \<rparr>"

definition resolves :: "string list \<Rightarrow> nat \<Rightarrow> post_result" where
  "resolves sigs attempt = Resolved (Some [tipped_tx])"

text \<open>A run in which the same signature is sighted, enriched, sighted again and enriched
  again: two ingest calls and two ticks, with a batch of one.\<close>

definition second_call :: ingest_call where
  "second_call = first_call\<lparr> call_now := 5000 \<rparr>"

definition after_first_tick :: "(string \<Rightarrow> string) \<Rightarrow> state" where
  "after_first_tick sha256Hex =
     batcherTick sha256Hex cfg_batch1 resolves 3600000 2000 (\<lambda>i. 2100) 2100
       (ingest cfg_batch1 init_state first_call)"

definition after_second_tick :: "(string \<Rightarrow> string) \<Rightarrow> state" where
  "after_second_tick sha256Hex =
     batcherTick sha256Hex cfg_batch1 resolves 3600000 7000 (\<lambda>i. 7100) 7100
       (ingest cfg_batch1 (after_first_tick sha256Hex) second_call)"

text \<open>Two records that differ only in their 33rd program: thirty-three programs each,
  named by one to thirty-three (thirty-four for the last of the second) letters.\<close>

definition many_programs :: "nat \<Rightarrow> string list" where
  "many_programs n = map (\<lambda>i. replicate (Suc i) CHR ''A'') [0..<32] @ [replicate n CHR ''A'']"

definition many_tx :: "nat \<Rightarrow> EnhancedTx" where
  "many_tx n =
     plain_tx\<lparr> instructions :=
                 map (\<lambda>p. \<lparr> ix_programId = p, innerInstructions = [] \<rparr>) (many_programs n) \<rparr>"

text \<open>The record of \<open>tipped_tx\<close> under another type.\<close>

definition transfer_tx :: EnhancedTx where
  "transfer_tx = tipped_tx\<lparr> enh_type := ''TRANSFER'' \<rparr>"

text \<open>An endpoint that answers with an empty array: it resolves no signature.\<close>

definition resolves_none :: "string list \<Rightarrow> nat \<Rightarrow> post_result" where
  "resolves_none sigs attempt = Resolved (Some [])"

text \<open>No retry for a missing signature (\<^verbatim>\<open>MAX_MISSING_RETRIES=0\<close>), batches of one; and
  an endpoint on which every attempt times out, as \<^verbatim>\<open>postJson\<close> rejects it (lines
  210-212).\<close>

definition cfg_no_retry :: config where
  "cfg_no_retry = load_config (default_env\<lparr> env_BATCH_SIZE := 1, env_MAX_MISSING_RETRIES := 0 \<rparr>)"

definition timed_out :: "string list \<Rightarrow> nat \<Rightarrow> post_result" where
  "timed_out sigs attempt = Rejected \<lparr> statusCode = None, message = ''HTTP request timeout'' \<rparr>"

text \<open>The smallest capacity the script allows, with batches of one. A run in which the
  signature of \<open>first_call\<close> is sighted and enriched by a tick, 999 other signatures are
  sighted, then the first one again; and one more call, which finds the buffer at
  capacity.\<close>

definition cfg_cap1000 :: config where
  "cfg_cap1000 = load_config (default_env\<lparr> env_BATCH_SIZE := 1, env_MAX_PENDING := 1000 \<rparr>)"

definition other_calls :: "ingest_call list" where
  "other_calls =
     map (\<lambda>i. \<lparr> call_sig = replicate (Suc i) CHR ''1'', call_hint = Some 7,
                call_source = ''jito_tip_program'', call_rnd = 0, call_now = 3000 + i \<rparr>)
       [0..<999]"

definition overflow_call :: ingest_call where
  "overflow_call = \<lparr> call_sig = ''3Zq9'', call_hint = Some 9,
                     call_source = ''jito_tip_program'', call_rnd = 0, call_now = 6000 \<rparr>"

definition stale_slot_run :: "(string \<Rightarrow> string) \<Rightarrow> state" where
  "stale_slot_run sha256Hex =
     foldl (ingest cfg_cap1000)
       (batcherTick sha256Hex cfg_cap1000 resolves 3600000 2000 (\<lambda>i. 2100) 2100
          (ingest cfg_cap1000 init_state first_call))
       (other_calls @ [second_call])"

section \<open>Properties\<close>

subsection \<open>The map operations\<close>

lemma map_get_set_same: "map_get (map_set k v m) k = Some v"
  by (induction m) (auto simp: map_get_def)

lemma map_get_set_other: "k' \<noteq> k \<Longrightarrow> map_get (map_set k v m) k' = map_get m k'"
  by (induction m) (auto simp: map_get_def)

lemma map_set_absent: "\<not> map_has m k \<Longrightarrow> map_set k v m = m @ [(k, v)]"
  by (induction m) (auto simp: map_has_def)

lemma map_set_keys_present: "map_has m k \<Longrightarrow> map fst (map_set k v m) = map fst m"
  by (induction m) (auto simp: map_has_def)

lemma map_has_get: "map_has m k \<longleftrightarrow> map_get m k \<noteq> None"
  by (induction m) (auto simp: map_has_def map_get_def)

lemma map_delete_head: "k \<notin> set (map fst m) \<Longrightarrow> map_delete k ((k, v) # m) = m"
  by (induction m) (auto simp: map_delete_def)

subsection \<open>Ingestion: the buffer stays within its capacity\<close>

lemma evict_loop_hit:
  assumes "evictIdx s < length (pendingOrder s)"
    and "map_has (pending s) (pendingOrder s ! evictIdx s)"
  shows "evict_loop s =
    s\<lparr> pending := map_delete (pendingOrder s ! evictIdx s) (pending s),
       evictIdx := evictIdx s + 1, evicted := evicted s + 1 \<rparr>"
  using assms by (subst evict_loop.simps) simp

lemma ingest_inv_init: "ingest_inv cfg init_state"
  by (simp add: ingest_inv_def init_state_def)

lemma ingest_not_accepted:
  "\<not> accepted cfg s c \<Longrightarrow> pending (ingest cfg s c) = pending s \<and> pendingOrder (ingest cfg s c) = pendingOrder s
     \<and> evictIdx (ingest cfg s c) = evictIdx s \<and> evicted (ingest cfg s c) = evicted s \<and> ingested (ingest cfg s c) = ingested s"
  by (auto simp: accepted_def ingest_def tryIngestSignature_def)

lemma ingest_accepted_room:
  assumes "accepted cfg s c" "length (pending s) < MAX_PENDING cfg"
  shows "ingest cfg s c = s\<lparr> pending := pending s @ [entry_of cfg c], pendingOrder := pendingOrder s @ [call_sig c], ingested := ingested s + 1\<rparr>"
  using assms by (auto simp: accepted_def ingest_def tryIngestSignature_def entry_of_def map_set_absent)

lemma full_head:
  assumes "ingest_inv cfg s" "0 < MAX_PENDING cfg" "MAX_PENDING cfg \<le> length (pending s)"
  obtains v rest where "pending s = (pendingOrder s ! evictIdx s, v) # rest"
     "evictIdx s < length (pendingOrder s)" "pendingOrder s ! evictIdx s \<notin> set (map fst rest)"
proof -
  from assms obtain kv rest where p: "pending s = kv # rest" by (cases "pending s") auto
  from assms(1) have eq: "map fst (pending s) = drop (evictIdx s) (pendingOrder s)"
    and d: "distinct (map fst (pending s))" by (auto simp: ingest_inv_def)
  from p eq have ne: "drop (evictIdx s) (pendingOrder s) \<noteq> []" by auto
  then have lt: "evictIdx s < length (pendingOrder s)" by simp
  from eq p have "fst kv = hd (drop (evictIdx s) (pendingOrder s))" by (metis list.sel(1) list.simps(9))
  also have "\<dots> = pendingOrder s ! evictIdx s" using lt by (simp add: hd_drop_conv_nth)
  finally have k: "fst kv = pendingOrder s ! evictIdx s" .
  from d p k have "pendingOrder s ! evictIdx s \<notin> set (map fst rest)" by auto
  with p k lt that[of "snd kv" rest] show thesis by (cases kv) auto
qed

lemma compact_fields:
  "pending (compact s) = pending s" "evicted (compact s) = evicted s" "ingested (compact s) = ingested s"
  "drop (evictIdx (compact s)) (pendingOrder (compact s)) = drop (evictIdx s) (pendingOrder s)"
  "evictIdx s \<le> length (pendingOrder s) \<Longrightarrow> evictIdx (compact s) \<le> length (pendingOrder (compact s))"
  by (auto simp: compact_def)

lemma ingest_accepted_full:
  assumes inv: "ingest_inv cfg s" and pos: "0 < MAX_PENDING cfg"
    and acc: "accepted cfg s c" and full: "MAX_PENDING cfg \<le> length (pending s)"
  shows "pending (ingest cfg s c) = tl (pending s) @ [entry_of cfg c]"
    and "evicted (ingest cfg s c) = evicted s + 1"
    and "ingested (ingest cfg s c) = ingested s + 1"
    and "ingest_inv cfg (ingest cfg s c)"
proof -
  obtain v rest where p: "pending s = (pendingOrder s ! evictIdx s, v) # rest"
    and lt: "evictIdx s < length (pendingOrder s)"
    and nin: "pendingOrder s ! evictIdx s \<notin> set (map fst rest)"
    using full_head[OF inv pos full] by blast
  let ?k = "pendingOrder s ! evictIdx s"
  have has: "map_has (pending s) ?k" using p by (simp add: map_has_def)
  have ev: "evict_loop s = s\<lparr> pending := rest, evictIdx := evictIdx s + 1, evicted := evicted s + 1 \<rparr>"
    using evict_loop_hit[OF lt has] p nin by (simp add: map_delete_head)
  let ?s1 = "compact (evict_loop s)"
  have p1: "pending ?s1 = rest" by (simp add: compact_fields ev)
  have nh: "\<not> map_has rest (call_sig c)" using acc p by (auto simp: accepted_def map_has_def)
  have ing: "ingest cfg s c = ?s1\<lparr> pending := rest @ [entry_of cfg c],
       pendingOrder := pendingOrder ?s1 @ [call_sig c], ingested := ingested ?s1 + 1 \<rparr>"
    using acc full p1 nh
    by (auto simp: accepted_def ingest_def tryIngestSignature_def entry_of_def map_set_absent Let_def)
  show "pending (ingest cfg s c) = tl (pending s) @ [entry_of cfg c]" using ing p by simp
  show "evicted (ingest cfg s c) = evicted s + 1" using ing by (simp add: compact_fields ev)
  show "ingested (ingest cfg s c) = ingested s + 1" using ing by (simp add: compact_fields ev)
  have eq: "map fst (pending s) = drop (evictIdx s) (pendingOrder s)"
    and d: "distinct (map fst (pending s))" and le: "length (pending s) \<le> MAX_PENDING cfg"
    using inv by (auto simp: ingest_inv_def)
  have dr: "drop (evictIdx ?s1) (pendingOrder ?s1) = map fst rest"
  proof -
    have "drop (evictIdx ?s1) (pendingOrder ?s1) = drop (evictIdx s + 1) (pendingOrder s)"
      by (simp add: compact_fields ev)
    also have "\<dots> = tl (drop (evictIdx s) (pendingOrder s))" by (simp add: drop_Suc tl_drop)
    also have "\<dots> = map fst rest" using eq p by (metis list.sel(3) list.simps(9))
    finally show ?thesis .
  qed
  have le1: "evictIdx ?s1 \<le> length (pendingOrder ?s1)"
    using lt by (intro compact_fields(5)) (simp add: ev)
  have "call_sig c \<notin> set (map fst rest)" using nh by (simp add: map_has_def)
  then show "ingest_inv cfg (ingest cfg s c)"
    using ing dr le1 d p le full by (simp add: ingest_inv_def entry_of_def)
qed

lemma ingest_inv_step:
  assumes "ingest_inv cfg s" "0 < MAX_PENDING cfg"
  shows "ingest_inv cfg (ingest cfg s c)"
proof (cases "accepted cfg s c")
  case False
  from ingest_not_accepted[OF False]
  have "ingest_inv cfg (ingest cfg s c) = ingest_inv cfg s" by (simp add: ingest_inv_def)
  then show ?thesis using assms(1) by simp
next
  case True
  show ?thesis
  proof (cases "MAX_PENDING cfg \<le> length (pending s)")
    case True
    then show ?thesis using ingest_accepted_full(4)[OF assms \<open>accepted cfg s c\<close>] by simp
  next
    case False
    then have "length (pending s) < MAX_PENDING cfg" by simp
    from ingest_accepted_room[OF \<open>accepted cfg s c\<close> this] assms(1) \<open>accepted cfg s c\<close> this
    show ?thesis by (auto simp: ingest_inv_def entry_of_def accepted_def map_has_def)
  qed
qed

lemma ingest_inv_all: "0 < MAX_PENDING cfg \<Longrightarrow> ingest_inv cfg (ingest_all cfg calls)"
  unfolding ingest_all_def
  by (induction calls rule: rev_induct) (simp_all add: ingest_inv_init ingest_inv_step)


text \<open>
  Runs of ingest calls alone, with no tick in between. After any sequence of calls of
  \<^verbatim>\<open>tryIngestSignature\<close> from the initial state, whatever their signatures, hint
  slots, sources, random draws and clock values, the pending map holds at most \<open>MAX_PENDING\<close> entries. A further call that is accepted
  while the map is at capacity removes exactly the first entry of the map (the oldest
  in insertion order), appends the new entry and adds one to \<open>evicted\<close>; an accepted call
  below capacity only appends; a call that is not accepted changes neither.
\<close>

theorem pending_bounded_oldest_evicted:
  assumes "0 < MAX_PENDING cfg"
  shows "length (pending (ingest_all cfg calls)) \<le> MAX_PENDING cfg
    \<and> (accepted cfg (ingest_all cfg calls) c
         \<and> MAX_PENDING cfg \<le> length (pending (ingest_all cfg calls)) \<longrightarrow>
           pending (ingest_all cfg (calls @ [c]))
             = tl (pending (ingest_all cfg calls)) @ [entry_of cfg c]
         \<and> evicted (ingest_all cfg (calls @ [c])) = evicted (ingest_all cfg calls) + 1)
    \<and> (accepted cfg (ingest_all cfg calls) c
         \<and> length (pending (ingest_all cfg calls)) < MAX_PENDING cfg \<longrightarrow>
           pending (ingest_all cfg (calls @ [c])) = pending (ingest_all cfg calls) @ [entry_of cfg c]
         \<and> evicted (ingest_all cfg (calls @ [c])) = evicted (ingest_all cfg calls))
    \<and> (\<not> accepted cfg (ingest_all cfg calls) c \<longrightarrow>
           pending (ingest_all cfg (calls @ [c])) = pending (ingest_all cfg calls)
         \<and> evicted (ingest_all cfg (calls @ [c])) = evicted (ingest_all cfg calls))"
proof -
  let ?s = "ingest_all cfg calls"
  have step: "ingest_all cfg (calls @ [c]) = ingest cfg ?s c" by (simp add: ingest_all_def)
  have inv: "ingest_inv cfg ?s" by (rule ingest_inv_all[OF assms])
  have bound: "length (pending ?s) \<le> MAX_PENDING cfg" using inv by (simp add: ingest_inv_def)
  have full: "accepted cfg ?s c \<and> MAX_PENDING cfg \<le> length (pending ?s) \<longrightarrow>
      pending (ingest cfg ?s c) = tl (pending ?s) @ [entry_of cfg c]
      \<and> evicted (ingest cfg ?s c) = evicted ?s + 1"
    using ingest_accepted_full(1,2)[OF inv assms] by blast
  have room: "accepted cfg ?s c \<and> length (pending ?s) < MAX_PENDING cfg \<longrightarrow>
      pending (ingest cfg ?s c) = pending ?s @ [entry_of cfg c]
      \<and> evicted (ingest cfg ?s c) = evicted ?s"
    using ingest_accepted_room[of cfg ?s c] by auto
  have rej: "\<not> accepted cfg ?s c \<longrightarrow>
      pending (ingest cfg ?s c) = pending ?s \<and> evicted (ingest cfg ?s c) = evicted ?s"
    using ingest_not_accepted[of cfg ?s c] by blast
  show ?thesis unfolding step using bound full room rej by blast
qed

lemma ingest_all_fill:
  assumes "INGRESS_SAMPLE_PCT cfg = 1" "distinct (map call_sig calls)"
    "[] \<notin> set (map call_sig calls)" "length calls \<le> MAX_PENDING cfg"
  shows "pending (ingest_all cfg calls) = map (entry_of cfg) calls"
  using assms(2-)
proof (induction calls rule: rev_induct)
  case Nil
  then show ?case by (simp add: ingest_all_def init_state_def)
next
  case (snoc c calls)
  let ?s = "ingest_all cfg calls"
  from snoc have IH: "pending ?s = map (entry_of cfg) calls" by simp
  have keys: "map fst (pending ?s) = map call_sig calls" by (simp add: IH entry_of_def comp_def)
  have acc: "accepted cfg ?s c"
    using snoc.prems assms(1) keys by (auto simp: accepted_def map_has_def)
  have room: "length (pending ?s) < MAX_PENDING cfg" using snoc.prems IH by simp
  have "ingest_all cfg (calls @ [c]) = ingest cfg ?s c" by (simp add: ingest_all_def)
  then show ?case using ingest_accepted_room[OF acc room] IH by simp
qed

lemma full_calls_pending:
  "pending (ingest_all cfg1000 full_calls) = map (entry_of cfg1000) full_calls"
proof (rule ingest_all_fill)
  show "INGRESS_SAMPLE_PCT cfg1000 = 1" by (simp add: cfg1000_def load_config_def default_env_def)
  have "inj_on (\<lambda>i. replicate (Suc i) CHR ''1'') (set [0..<1000])"
    by (rule inj_onI) (metis length_replicate nat.inject)
  then show "distinct (map call_sig full_calls)"
    by (simp add: full_calls_def comp_def distinct_map)
  show "[] \<notin> set (map call_sig full_calls)" by (auto simp: full_calls_def)
  show "length full_calls \<le> MAX_PENDING cfg1000"
    by (simp add: full_calls_def cfg1000_def load_config_def default_env_def)
qed

theorem pending_bounded_oldest_evicted_witness:
  "0 < MAX_PENDING cfg1000
   \<and> accepted cfg1000 (ingest_all cfg1000 full_calls) late_call
   \<and> MAX_PENDING cfg1000 \<le> length (pending (ingest_all cfg1000 full_calls))
   \<and> length (pending (ingest_all cfg1000 full_calls)) \<le> MAX_PENDING cfg1000
   \<and> pending (ingest_all cfg1000 (full_calls @ [late_call]))
       = tl (pending (ingest_all cfg1000 full_calls)) @ [entry_of cfg1000 late_call]
   \<and> evicted (ingest_all cfg1000 (full_calls @ [late_call]))
       = evicted (ingest_all cfg1000 full_calls) + 1"
proof -
  have pos: "0 < MAX_PENDING cfg1000" and mx: "MAX_PENDING cfg1000 = 1000"
    by (simp_all add: cfg1000_def load_config_def default_env_def)
  have full: "MAX_PENDING cfg1000 \<le> length (pending (ingest_all cfg1000 full_calls))"
    by (simp add: full_calls_pending mx) (simp add: full_calls_def)
  have "CHR ''5'' \<notin> set (replicate (Suc i) CHR ''1'')" for i by simp
  then have "late_sig \<notin> set (map call_sig full_calls)" if "late_sig = ''5VERv8''" for late_sig
    using that by (auto simp: full_calls_def)
  then have nh: "\<not> map_has (pending (ingest_all cfg1000 full_calls)) (call_sig late_call)"
    by (simp add: full_calls_pending map_has_def entry_of_def comp_def late_call_def)
  have "INGRESS_SAMPLE_PCT cfg1000 = 1"
    by (simp add: cfg1000_def load_config_def default_env_def)
  with nh have acc: "accepted cfg1000 (ingest_all cfg1000 full_calls) late_call"
    by (simp add: accepted_def) (simp add: late_call_def)
  show ?thesis
    using pending_bounded_oldest_evicted[OF pos, of full_calls late_call] pos acc full by blast
qed

subsection \<open>Selection\<close>

lemma select_loop_step:
  "length out < BATCH_SIZE cfg \<and> scanned < maxScan cfg \<and> 0 < length (pendingOrder s) \<Longrightarrow>
   select_loop cfg now s out scanned =
     select_loop cfg now (s\<lparr> scanIdx := scan_pos s + 1 \<rparr>)
          (if ready_at now s (pendingOrder s ! scan_pos s)
           then out @ [pendingOrder s ! scan_pos s] else out)
          (scanned + 1)"
  by (subst select_loop.simps) simp

lemma select_loop_stop:
  "\<not> (length out < BATCH_SIZE cfg \<and> scanned < maxScan cfg \<and> 0 < length (pendingOrder s)) \<Longrightarrow>
   select_loop cfg now s out scanned = (s, out, scanned)"
  by (subst select_loop.simps) (simp only: if_False)

lemma one_pending_reached: "ingest cfg_default init_state first_call = one_pending"
  by (simp add: one_pending_def ingest_def tryIngestSignature_def cfg_default_def load_config_def
      default_env_def init_state_def map_has_def first_call_def new_entry_def slot_or_null_def
      str_or_null_def)

lemma select_loop_props:
  assumes "select_loop cfg now s out scanned = (s', out', n')"
  shows "s' = s\<lparr> scanIdx := scanIdx s' \<rparr>
    \<and> (length out \<le> BATCH_SIZE cfg \<longrightarrow> length out' \<le> BATCH_SIZE cfg)
    \<and> (scanned \<le> maxScan cfg \<longrightarrow> n' \<le> maxScan cfg)
    \<and> (\<exists>new. out' = out @ new \<and> (\<forall>sig \<in> set new. ready_at now s sig))"
  using assms
proof (induction cfg now s out scanned rule: select_loop.induct)
  case (1 cfg now s out scanned)
  show ?case
  proof (cases "length out < BATCH_SIZE cfg \<and> scanned < maxScan cfg \<and> 0 < length (pendingOrder s)")
    case False
    with "1.prems" show ?thesis by (simp add: select_loop_stop)
  next
    case True
    let ?s1 = "s\<lparr> scanIdx := scan_pos s + 1 \<rparr>"
    let ?sig = "pendingOrder s ! scan_pos s"
    let ?out1 = "if ready_at now s ?sig then out @ [?sig] else out"
    have eq: "select_loop cfg now ?s1 ?out1 (scanned + 1) = (s', out', n')"
      using "1.prems" select_loop_step[OF True] by simp
    note IH = "1.IH"[OF True eq]
    have r: "ready_at now ?s1 = ready_at now s" by (simp add: ready_at_def fun_eq_iff)
    from IH obtain new where new: "out' = ?out1 @ new" "\<forall>sig \<in> set new. ready_at now s sig"
      using r by auto
    have a: "s' = s\<lparr> scanIdx := scanIdx s' \<rparr>" using IH by (metis (no_types, lifting) state.surjective state.update_convs(4))
    have b: "length out \<le> BATCH_SIZE cfg \<longrightarrow> length out' \<le> BATCH_SIZE cfg" using IH True by auto
    have c: "scanned \<le> maxScan cfg \<longrightarrow> n' \<le> maxScan cfg" using IH True by auto
    have d: "\<exists>new. out' = out @ new \<and> (\<forall>sig \<in> set new. ready_at now s sig)"
      using new by (cases "ready_at now s ?sig") auto
    from a b c d show ?thesis by blast
  qed
qed


lemma selectReadyBatch_sound:
  assumes "selectReadyBatch cfg now s = (s', out)"
  shows "length out \<le> BATCH_SIZE cfg"
    and "\<forall>sig \<in> set out. \<exists>meta. map_get (pending s) sig = Some meta \<and> nextAttemptAtMs meta \<le> now"
    and "s' = s\<lparr> scanIdx := scanIdx s' \<rparr>"
    and "\<exists>n. select_loop cfg now s [] 0 = (s', out, n) \<and> n \<le> maxScan cfg"
proof -
  obtain n where eq: "select_loop cfg now s [] 0 = (s', out, n)"
    using assms by (auto simp: selectReadyBatch_def split: prod.splits)
  note p = select_loop_props[OF eq]
  show "length out \<le> BATCH_SIZE cfg" using p by simp
  show "\<forall>sig \<in> set out. \<exists>meta. map_get (pending s) sig = Some meta \<and> nextAttemptAtMs meta \<le> now"
    using p by (auto simp: ready_at_def split: option.splits)
  show "s' = s\<lparr> scanIdx := scanIdx s' \<rparr>" using p by simp
  show "\<exists>n. select_loop cfg now s [] 0 = (s', out, n) \<and> n \<le> maxScan cfg" using eq p by simp
qed

lemma lone_batch_selected:
  "fst (selectReadyBatch cfg_default 2000 one_pending) = one_pending\<lparr> scanIdx := 1 \<rparr>
   \<and> length (snd (selectReadyBatch cfg_default 2000 one_pending)) = 100
   \<and> set (snd (selectReadyBatch cfg_default 2000 one_pending)) = {''5VERv8''}"
  by (simp add: one_pending_def selectReadyBatch_def select_loop_step select_loop_stop
      cfg_default_def load_config_def default_env_def init_state_def maxScan_def clampInt_def
      scan_pos_def ready_at_def map_get_def)

text \<open>
  Claim C4. The batch is meant to hold no signature twice. With the default
  configuration and a single pending signature that is ready, the scan wraps around
  \<open>pendingOrder\<close> and takes the same entry again on every pass: the batch is that
  signature a hundred times.
\<close>

theorem selectReadyBatch_repeats_signature:
  "length (snd (selectReadyBatch cfg_default 2000 one_pending)) = 100
   \<and> set (snd (selectReadyBatch cfg_default 2000 one_pending)) = {''5VERv8''}
   \<and> \<not> distinct (snd (selectReadyBatch cfg_default 2000 one_pending))"
proof -
  have a: "length (snd (selectReadyBatch cfg_default 2000 one_pending)) = 100
   \<and> set (snd (selectReadyBatch cfg_default 2000 one_pending)) = {''5VERv8''}"
    using lone_batch_selected by simp
  then have "card (set (snd (selectReadyBatch cfg_default 2000 one_pending)))
      \<noteq> length (snd (selectReadyBatch cfg_default 2000 one_pending))" by simp
  then have "\<not> distinct (snd (selectReadyBatch cfg_default 2000 one_pending))"
    using distinct_card by blast
  with a show ?thesis by blast
qed

subsection \<open>Sampling\<close>

lemma evict_loop_keeps:
  "ingested (evict_loop s) = ingested s \<and> sampledOut (evict_loop s) = sampledOut s
   \<and> pendingOrder (evict_loop s) = pendingOrder s"
proof (induction s rule: evict_loop.induct)
  case (1 s)
  show ?case
  proof (cases "evictIdx s < length (pendingOrder s)")
    case False
    then show ?thesis by (subst (1 2 3) evict_loop.simps) simp
  next
    case True
    show ?thesis
    proof (cases "map_has (pending s) (pendingOrder s ! evictIdx s)")
      case h: True
      show ?thesis using True h by (subst (1 2 3) evict_loop.simps) simp
    next
      case h: False
      have "evict_loop s = evict_loop (s\<lparr> evictIdx := evictIdx s + 1 \<rparr>)"
        using True h by (subst evict_loop.simps) simp
      then show ?thesis using "1.IH"[OF True h] by simp
    qed
  qed
qed

lemma evict_loop_absent:
  "\<not> map_has (pending s) k \<Longrightarrow> \<not> map_has (pending (evict_loop s)) k"
proof (induction s rule: evict_loop.induct)
  case (1 s)
  show ?case
  proof (cases "evictIdx s < length (pendingOrder s)")
    case False
    then show ?thesis using "1.prems" by (subst evict_loop.simps) simp
  next
    case True
    show ?thesis
    proof (cases "map_has (pending s) (pendingOrder s ! evictIdx s)")
      case h: True
      show ?thesis using True h "1.prems"
        by (subst evict_loop.simps) (auto simp: map_has_def map_delete_def)
    next
      case h: False
      have "evict_loop s = evict_loop (s\<lparr> evictIdx := evictIdx s + 1 \<rparr>)"
        using True h by (subst evict_loop.simps) simp
      then show ?thesis using "1.IH"[OF True h] "1.prems" by simp
    qed
  qed
qed

lemma ingest_accepted:
  assumes "accepted cfg s c"
  shows "ingested (ingest cfg s c) = ingested s + 1"
    and "map_get (pending (ingest cfg s c)) (call_sig c) = Some (snd (entry_of cfg c))"
    and "sampledOut (ingest cfg s c) = sampledOut s"
  using assms
  by (auto simp: accepted_def ingest_def tryIngestSignature_def Let_def entry_of_def
      map_get_set_same compact_def evict_loop_keeps)

lemma ingest_rejected:
  assumes "\<not> accepted cfg s c"
  shows "ingested (ingest cfg s c) = ingested s" and "pending (ingest cfg s c) = pending s"
  using assms by (auto simp: accepted_def ingest_def tryIngestSignature_def)

lemma sample_all_accepts:
  "INGRESS_SAMPLE_PCT cfg = 1 \<Longrightarrow>
   accepted cfg s c \<longleftrightarrow> call_sig c \<noteq> [] \<and> \<not> map_has (pending s) (call_sig c)"
  by (simp add: accepted_def)

lemma sample_none_rejects_positive_draw:
  "INGRESS_SAMPLE_PCT cfg = 0 \<Longrightarrow> 0 < call_rnd c \<Longrightarrow> \<not> accepted cfg s c"
  by (simp add: accepted_def)

text \<open>
  Claim C6. With keep-probability 0 no event is meant to be accepted, whatever the
  draws. \<^verbatim>\<open>Math.random()\<close> ranges over \<open>[0, 1)\<close>, and the test of line 277 rejects only
  a draw strictly above the probability: at the draw 0 the first call is accepted and
  \<open>ingested\<close> becomes 1.
\<close>

theorem sample_zero_accepts_zero_draw:
  "INGRESS_SAMPLE_PCT cfg_sample0 = 0
   \<and> call_rnd first_call = 0
   \<and> ingested (ingest cfg_sample0 init_state first_call) = 1
   \<and> map_has (pending (ingest cfg_sample0 init_state first_call)) ''5VERv8''"
  by (simp add: ingest_def tryIngestSignature_def cfg_sample0_def load_config_def
      default_env_def init_state_def map_has_def first_call_def)

subsection \<open>Missing outcomes\<close>

lemma map_get_delete_same: "map_get (map_delete k m) k = None"
  by (induction m) (auto simp: map_get_def map_delete_def)

lemma map_get_delete_other: "k' \<noteq> k \<Longrightarrow> map_get (map_delete k m) k' = map_get m k'"
  by (induction m) (auto simp: map_get_def map_delete_def)

lemma missing_outcome_absent:
  "map_get (pending s) sig = None \<Longrightarrow> missing_outcome cfg sig s t = s"
  by (simp add: missing_outcome_def process_one_def)

lemma missing_outcome_retry:
  assumes "map_get (pending s) sig = Some meta" "attempts meta < MAX_MISSING_RETRIES cfg"
  shows "map_get (pending (missing_outcome cfg sig s t)) sig =
           Some (meta\<lparr> attempts := attempts meta + 1,
                       nextAttemptAtMs := t + min 20000 (500 * 2 ^ (attempts meta + 1)) \<rparr>)"
    and "droppedMissing (missing_outcome cfg sig s t) = droppedMissing s"
  using assms
  by (simp_all add: missing_outcome_def process_one_def bySig_get_def markMissing_def Let_def
      map_get_set_same)

lemma missing_outcome_drop:
  assumes "map_get (pending s) sig = Some meta" "MAX_MISSING_RETRIES cfg \<le> attempts meta"
  shows "map_get (pending (missing_outcome cfg sig s t)) sig = None"
    and "droppedMissing (missing_outcome cfg sig s t) = droppedMissing s + 1"
  using assms
  by (simp_all add: missing_outcome_def process_one_def bySig_get_def markMissing_def Let_def
      map_get_delete_same)

lemma missing_outcomes_retry:
  assumes "map_get (pending s) sig = Some meta" "attempts meta = 0"
    and "length ts \<le> MAX_MISSING_RETRIES cfg"
  shows "map_get (pending (foldl (missing_outcome cfg sig) s ts)) sig =
           Some (meta\<lparr> attempts := length ts,
                       nextAttemptAtMs := (if ts = [] then nextAttemptAtMs meta
                                           else last ts + min 20000 (500 * 2 ^ length ts)) \<rparr>)
         \<and> droppedMissing (foldl (missing_outcome cfg sig) s ts) = droppedMissing s"
  using assms(3)
proof (induction ts rule: rev_induct)
  case Nil
  then show ?case using assms(1,2) by simp
next
  case (snoc t ts)
  let ?s = "foldl (missing_outcome cfg sig) s ts"
  let ?m = "meta\<lparr> attempts := length ts,
                   nextAttemptAtMs := (if ts = [] then nextAttemptAtMs meta
                                       else last ts + min 20000 (500 * 2 ^ length ts)) \<rparr>"
  from snoc have IH: "map_get (pending ?s) sig = Some ?m" "droppedMissing ?s = droppedMissing s"
    by simp_all
  have lt: "attempts ?m < MAX_MISSING_RETRIES cfg" using snoc.prems by simp
  show ?case using missing_outcome_retry[OF IH(1) lt, of t] IH(2) by simp
qed

text \<open>
  Iterations of the missing branch, one by one. A pending signature with no attempt so
  far meets a run of them, at the clock values \<open>ts\<close>. While the run is no longer than \<open>MAX_MISSING_RETRIES\<close> the
  entry stays, its attempts are the length of the run and its next attempt is the time
  of the last outcome plus \<open>min 20000 (500 * 2 ^ attempts)\<close>, and \<open>droppedMissing\<close> is
  unchanged; when the run has \<open>MAX_MISSING_RETRIES + 1\<close> outcomes the entry is gone and
  \<open>droppedMissing\<close> has grown by exactly one.
\<close>

theorem missing_retries_then_dropped:
  assumes "map_get (pending s) sig = Some meta" and "attempts meta = 0"
  shows "(length ts \<le> MAX_MISSING_RETRIES cfg \<longrightarrow>
            map_get (pending (foldl (missing_outcome cfg sig) s ts)) sig =
              Some (meta\<lparr> attempts := length ts,
                          nextAttemptAtMs := (if ts = [] then nextAttemptAtMs meta
                                              else last ts + min 20000 (500 * 2 ^ length ts)) \<rparr>)
            \<and> droppedMissing (foldl (missing_outcome cfg sig) s ts) = droppedMissing s)
       \<and> (length ts = MAX_MISSING_RETRIES cfg + 1 \<longrightarrow>
            map_get (pending (foldl (missing_outcome cfg sig) s ts)) sig = None
            \<and> droppedMissing (foldl (missing_outcome cfg sig) s ts) = droppedMissing s + 1)"
proof (intro conjI impI)
  assume "length ts \<le> MAX_MISSING_RETRIES cfg"
  from missing_outcomes_retry[OF assms this]
  show "map_get (pending (foldl (missing_outcome cfg sig) s ts)) sig =
              Some (meta\<lparr> attempts := length ts,
                          nextAttemptAtMs := (if ts = [] then nextAttemptAtMs meta
                                              else last ts + min 20000 (500 * 2 ^ length ts)) \<rparr>)"
    and "droppedMissing (foldl (missing_outcome cfg sig) s ts) = droppedMissing s" by simp_all
next
  assume len: "length ts = MAX_MISSING_RETRIES cfg + 1"
  then obtain ts' t where ts: "ts = ts' @ [t]" "length ts' = MAX_MISSING_RETRIES cfg"
    by (cases ts rule: rev_cases) auto
  let ?s = "foldl (missing_outcome cfg sig) s ts'"
  from missing_outcomes_retry[OF assms, of ts' cfg] ts(2)
  obtain m where m: "map_get (pending ?s) sig = Some m" "attempts m = length ts'"
    "droppedMissing ?s = droppedMissing s" by simp
  have ge: "MAX_MISSING_RETRIES cfg \<le> attempts m" using m(2) ts(2) by simp
  from missing_outcome_drop[OF m(1) ge, of t] m(3) ts(1)
  show "map_get (pending (foldl (missing_outcome cfg sig) s ts)) sig = None"
    and "droppedMissing (foldl (missing_outcome cfg sig) s ts) = droppedMissing s + 1"
    by simp_all
qed

theorem missing_retries_then_dropped_witness:
  "map_get (pending one_pending) ''5VERv8'' \<noteq> None
   \<and> length [2000, 3500, 6000, 10500, 19000, 35500 :: nat] \<le> MAX_MISSING_RETRIES cfg_default
   \<and> map_option attempts (map_get (pending (foldl (missing_outcome cfg_default ''5VERv8'') one_pending
         [2000, 3500, 6000, 10500, 19000, 35500])) ''5VERv8'') = Some 6
   \<and> map_option nextAttemptAtMs (map_get (pending (foldl (missing_outcome cfg_default ''5VERv8'') one_pending
         [2000, 3500, 6000, 10500, 19000, 35500])) ''5VERv8'') = Some 55500
   \<and> length [2000, 3500, 6000, 10500, 19000, 35500, 56000 :: nat] = MAX_MISSING_RETRIES cfg_default + 1
   \<and> map_get (pending (foldl (missing_outcome cfg_default ''5VERv8'') one_pending
         [2000, 3500, 6000, 10500, 19000, 35500, 56000])) ''5VERv8'' = None
   \<and> droppedMissing (foldl (missing_outcome cfg_default ''5VERv8'') one_pending
         [2000, 3500, 6000, 10500, 19000, 35500, 56000]) = 1"
proof -
  let ?meta = "\<lparr> seenAtMs = 0, hintSlot = Some 8, attempts = 0, nextAttemptAtMs = 1500,
                  source = Some ''jito_tip_program'' \<rparr>"
  have g: "map_get (pending one_pending) ''5VERv8'' = Some ?meta"
    by (simp add: one_pending_def map_get_def)
  have a: "attempts ?meta = 0" by simp
  have mx: "MAX_MISSING_RETRIES cfg_default = 6"
    by (simp add: cfg_default_def load_config_def default_env_def)
  have d0: "droppedMissing one_pending = 0" by (simp add: one_pending_def init_state_def)
  show ?thesis
    using missing_retries_then_dropped[OF g a, of "[2000, 3500, 6000, 10500, 19000, 35500]" cfg_default]
      missing_retries_then_dropped[OF g a, of "[2000, 3500, 6000, 10500, 19000, 35500, 56000]" cfg_default]
      g mx d0
    by simp
qed

subsection \<open>Batch-level failure\<close>

lemma map_set_keys_get:
  "map_get m k = Some v \<Longrightarrow> map fst (map_set k v' m) = map fst m"
  by (induction m) (auto simp: map_get_def split: if_splits)

lemma reschedule_frame: "reschedule t s sig = s\<lparr> pending := pending (reschedule t s sig) \<rparr>"
  by (simp add: reschedule_def split: option.splits)

lemma reschedule_keys: "map fst (pending (reschedule t s sig)) = map fst (pending s)"
  by (simp add: reschedule_def map_set_keys_get split: option.splits)

lemma reschedule_get:
  "map_get (pending (reschedule t s sig)) k =
     map_option (\<lambda>m. if k = sig then m\<lparr> nextAttemptAtMs := max (nextAttemptAtMs m) t \<rparr> else m)
       (map_get (pending s) k)"
  by (cases "k = sig")
     (auto simp: reschedule_def map_get_set_same map_get_set_other option.map_ident
        split: option.splits)

lemma reschedule_all:
  "foldl (reschedule t) s sigs = s\<lparr> pending := pending (foldl (reschedule t) s sigs) \<rparr>
   \<and> map fst (pending (foldl (reschedule t) s sigs)) = map fst (pending s)
   \<and> (\<forall>k. map_get (pending (foldl (reschedule t) s sigs)) k =
         map_option (\<lambda>m. if k \<in> set sigs
                          then m\<lparr> nextAttemptAtMs := max (nextAttemptAtMs m) t \<rparr> else m)
           (map_get (pending s) k))"
proof (induction sigs rule: rev_induct)
  case Nil
  show ?case by (simp add: option.map_ident)
next
  case (snoc sig sigs)
  let ?s = "foldl (reschedule t) s sigs"
  have f: "foldl (reschedule t) s (sigs @ [sig]) = reschedule t ?s sig" by simp
  have a: "reschedule t ?s sig = s\<lparr> pending := pending (reschedule t ?s sig) \<rparr>"
    using snoc reschedule_frame[of t ?s sig]
    by (metis (no_types, lifting) state.surjective state.update_convs(1))
  have b: "map fst (pending (reschedule t ?s sig)) = map fst (pending s)"
    using snoc by (simp add: reschedule_keys)
  have c: "map_get (pending (reschedule t ?s sig)) k =
         map_option (\<lambda>m. if k \<in> set (sigs @ [sig])
                          then m\<lparr> nextAttemptAtMs := max (nextAttemptAtMs m) t \<rparr> else m)
           (map_get (pending s) k)" for k
  proof (cases "map_get (pending s) k")
    case None
    then show ?thesis using snoc by (simp add: reschedule_get)
  next
    case (Some m)
    then show ?thesis using snoc by (simp add: reschedule_get)
  qed
  show ?case unfolding f using a b c by blast
qed


lemma markFailed_effect:
  "map fst (pending (markFailed e tnow sigs s)) = map fst (pending s)
   \<and> (\<forall>k. map_get (pending (markFailed e tnow sigs s)) k =
         map_option (\<lambda>m. if k \<in> set sigs
                          then m\<lparr> nextAttemptAtMs := max (nextAttemptAtMs m) (tnow + 1000) \<rparr>
                          else m)
           (map_get (pending s) k))
   \<and> (\<exists>r o'. markFailed e tnow sigs s =
         s\<lparr> pending := pending (markFailed e tnow sigs s),
            enhancedRateLimited := r, enhancedOtherErrors := o' \<rparr>
         \<and> r + o' = enhancedRateLimited s + enhancedOtherErrors s + 1)"
proof -
  let ?s1 = "if statusCode e = Some 429 \<or> str_includes (message e) ''429''
             then s\<lparr> enhancedRateLimited := enhancedRateLimited s + 1 \<rparr>
             else s\<lparr> enhancedOtherErrors := enhancedOtherErrors s + 1 \<rparr>"
  have mf: "markFailed e tnow sigs s = foldl (reschedule (tnow + 1000)) ?s1 sigs"
    by (simp add: markFailed_def Let_def)
  note r = reschedule_all[of "tnow + 1000" ?s1 sigs]
  have p1: "pending ?s1 = pending s" by simp
  have fr: "markFailed e tnow sigs s = ?s1\<lparr> pending := pending (markFailed e tnow sigs s) \<rparr>"
    using r mf by simp
  have "\<exists>r o'. ?s1\<lparr> pending := pending (markFailed e tnow sigs s) \<rparr> =
         s\<lparr> pending := pending (markFailed e tnow sigs s),
            enhancedRateLimited := r, enhancedOtherErrors := o' \<rparr>
         \<and> r + o' = enhancedRateLimited s + enhancedOtherErrors s + 1"
  proof (cases "statusCode e = Some 429 \<or> str_includes (message e) ''429''")
    case True
    then show ?thesis
      by (intro exI[of _ "enhancedRateLimited s + 1"] exI[of _ "enhancedOtherErrors s"]) simp
  next
    case False
    then show ?thesis
      by (intro exI[of _ "enhancedRateLimited s"] exI[of _ "enhancedOtherErrors s + 1"]) simp
  qed
  with fr have third: "\<exists>r o'. markFailed e tnow sigs s =
         s\<lparr> pending := pending (markFailed e tnow sigs s),
            enhancedRateLimited := r, enhancedOtherErrors := o' \<rparr>
         \<and> r + o' = enhancedRateLimited s + enhancedOtherErrors s + 1" by simp
  show ?thesis using r p1 third unfolding mf by simp
qed

lemma batch_failure_keys:
  "map fst (pending (batcherFinish sha256Hex cfg clk tnow sigs (Inl e) s)) = map fst (pending s)"
  using markFailed_effect[of e tnow sigs s] by (simp add: batcherFinish_def)

text \<open>
  The \<^verbatim>\<open>catch\<close> block. When \<^verbatim>\<open>fetchEnhancedBatch\<close> throws for the batch \<open>sigs\<close>, the rest of the
  tick keeps the pending map's keys as they are, in their order (no entry is dropped),
  leaves \<open>droppedMissing\<close> unchanged, sets \<open>nextAttemptAtMs\<close> of every entry of the batch
  to the maximum of its value and the clock plus 1000, changes no other field of any
  entry, and leaves both aggregate tables, the log and \<open>processed\<close> as they were.
\<close>

theorem batch_failure_reschedules_only:
  "map fst (pending (batcherFinish sha256Hex cfg clk tnow sigs (Inl e) s)) = map fst (pending s)
   \<and> (\<forall>k. map_get (pending (batcherFinish sha256Hex cfg clk tnow sigs (Inl e) s)) k =
         map_option (\<lambda>m. if k \<in> set sigs
                          then m\<lparr> nextAttemptAtMs := max (nextAttemptAtMs m) (tnow + 1000) \<rparr>
                          else m)
           (map_get (pending s) k))
   \<and> droppedMissing (batcherFinish sha256Hex cfg clk tnow sigs (Inl e) s) = droppedMissing s
   \<and> fpStats (batcherFinish sha256Hex cfg clk tnow sigs (Inl e) s) = fpStats s
   \<and> programStats (batcherFinish sha256Hex cfg clk tnow sigs (Inl e) s) = programStats s
   \<and> outStream (batcherFinish sha256Hex cfg clk tnow sigs (Inl e) s) = outStream s
   \<and> processed (batcherFinish sha256Hex cfg clk tnow sigs (Inl e) s) = processed s
   \<and> enhancedMissing (batcherFinish sha256Hex cfg clk tnow sigs (Inl e) s) = enhancedMissing s"
proof -
  have bf: "batcherFinish sha256Hex cfg clk tnow sigs (Inl e) s
      = (markFailed e tnow sigs s)\<lparr> inFlight := False \<rparr>"
    by (simp add: batcherFinish_def)
  from markFailed_effect[of e tnow sigs s]
  obtain r o' where keys: "map fst (pending (markFailed e tnow sigs s)) = map fst (pending s)"
    and gets: "\<forall>k. map_get (pending (markFailed e tnow sigs s)) k =
         map_option (\<lambda>m. if k \<in> set sigs
                          then m\<lparr> nextAttemptAtMs := max (nextAttemptAtMs m) (tnow + 1000) \<rparr>
                          else m)
           (map_get (pending s) k)"
    and fr: "markFailed e tnow sigs s =
         s\<lparr> pending := pending (markFailed e tnow sigs s),
            enhancedRateLimited := r, enhancedOtherErrors := o' \<rparr>"
    by blast
  have "droppedMissing (markFailed e tnow sigs s) = droppedMissing s"
    "fpStats (markFailed e tnow sigs s) = fpStats s"
    "programStats (markFailed e tnow sigs s) = programStats s"
    "outStream (markFailed e tnow sigs s) = outStream s"
    "processed (markFailed e tnow sigs s) = processed s"
    "enhancedMissing (markFailed e tnow sigs s) = enhancedMissing s"
    by (subst fr, simp)+
  then show ?thesis unfolding bf using keys gets by simp
qed

lemma tick_failure_batch_present:
  assumes sel: "selectReadyBatch cfg now s = (s1, sigs)"
    and fail: "fst (fetchEnhancedBatch postJson sigs) = Inl e"
    and run: "\<not> inFlight s" "pending s \<noteq> []" "now < stopAtMs" "sigs \<noteq> []"
  shows "\<forall>sig \<in> set sigs.
           map_has (pending (batcherTick sha256Hex cfg postJson stopAtMs now clk tnow s)) sig"
proof -
  have s1: "s1 = s\<lparr> scanIdx := scanIdx s1 \<rparr>" using selectReadyBatch_sound(3)[OF sel] .
  have p1: "pending s1 = pending s" by (subst s1) simp
  have tick: "batcherTick sha256Hex cfg postJson stopAtMs now clk tnow s
      = batcherFinish sha256Hex cfg clk tnow sigs (Inl e) (s1\<lparr> inFlight := True \<rparr>)"
    using sel fail run by (simp add: batcherTick_def)
  have "map fst (pending (batcherTick sha256Hex cfg postJson stopAtMs now clk tnow s))
      = map fst (pending s)"
    unfolding tick using p1 by (simp add: batch_failure_keys)
  moreover have "\<forall>sig \<in> set sigs. map_has (pending s) sig"
    using selectReadyBatch_sound(2)[OF sel] by (auto simp: map_has_get)
  ultimately show ?thesis by (simp add: map_has_def)
qed

subsection \<open>Retries of the enrichment call\<close>

lemma fetch_rate_limited:
  "fetchEnhancedBatch rate_limited sigs = (Inr [], [250, 500, 1000, 2000, 4000, 8000])"
  by (simp add: fetchEnhancedBatch_def rate_limited_def retryable_def eval_nat_numeral)

lemma fetch_other_error_surfaces:
  "\<not> retryable e \<Longrightarrow> fetchEnhancedBatch (\<lambda>sigs n. Rejected e) sigs = (Inl e, [])"
  by (simp add: fetchEnhancedBatch_def eval_nat_numeral)

text \<open>
  Claim C2. A call that is still failing after its retries is meant to surface the error,
  so that the scheduler reschedules the batch without touching the attempts of its
  signatures. When every one of the six attempts is answered with status 429 (or times
  out), \<^verbatim>\<open>fetchEnhancedBatch\<close> returns the empty array instead (line 247): the tick
  then takes the one signature of the batch for missing, its attempts go from 0 to 1,
  \<open>enhancedMissing\<close> is counted and neither error counter is.
\<close>

theorem exhausted_retries_count_as_missing:
  "fst (fetchEnhancedBatch rate_limited [''5VERv8'']) = Inr []
   \<and> snd (selectReadyBatch cfg_batch1 2000 one_pending) = [''5VERv8'']
   \<and> map_option attempts
        (map_get (pending (batcherTick sha256Hex cfg_batch1 rate_limited 3600000 2000
                             (\<lambda>i. 18000) 18000 one_pending)) ''5VERv8'') = Some 1
   \<and> enhancedMissing (batcherTick sha256Hex cfg_batch1 rate_limited 3600000 2000
                             (\<lambda>i. 18000) 18000 one_pending) = 1
   \<and> enhancedRateLimited (batcherTick sha256Hex cfg_batch1 rate_limited 3600000 2000
                             (\<lambda>i. 18000) 18000 one_pending) = 0
   \<and> enhancedOtherErrors (batcherTick sha256Hex cfg_batch1 rate_limited 3600000 2000
                             (\<lambda>i. 18000) 18000 one_pending) = 0"
proof -
  have sel: "selectReadyBatch cfg_batch1 2000 one_pending
      = (one_pending\<lparr> scanIdx := 1 \<rparr>, [''5VERv8''])"
    by (simp add: one_pending_def selectReadyBatch_def select_loop_step select_loop_stop
        cfg_batch1_def load_config_def default_env_def init_state_def maxScan_def clampInt_def
        scan_pos_def ready_at_def map_get_def)
  have mx: "MAX_MISSING_RETRIES cfg_batch1 = 6"
    by (simp add: cfg_batch1_def load_config_def default_env_def)
  have tick: "batcherTick sha256Hex cfg_batch1 rate_limited 3600000 2000 (\<lambda>i. 18000) 18000 one_pending
     = one_pending\<lparr> scanIdx := 1, enhancedMissing := 1,
         pending := [(''5VERv8'', \<lparr> seenAtMs = 0, hintSlot = Some 8, attempts = 1,
                                 nextAttemptAtMs = 19000, source = Some ''jito_tip_program'' \<rparr>)] \<rparr>"
    unfolding batcherTick_def sel fetch_rate_limited
    by (simp add: one_pending_def init_state_def batcherFinish_def process_one_def
        bySig_get_def markMissing_def mx map_get_def Let_def)
  show ?thesis unfolding tick sel fetch_rate_limited
    by (simp add: one_pending_def init_state_def map_get_def)
qed

subsection \<open>Aggregation only on evidence of value\<close>

lemma bumpFingerprint_count:
  "fp_count_of (bumpFingerprint t fp payer d ex tbl) fp = fp_count_of tbl fp + 1"
  by (simp add: bumpFingerprint_def fp_count_of_def Let_def map_get_set_same split: option.splits)


lemma bumpProgram_count:
  "pg_count_of (bumpProgram pid d tbl) k = pg_count_of tbl k + (if k = pid then 1 else 0)"
  by (simp add: bumpProgram_def pg_count_of_def Let_def map_get_set_same map_get_set_other
      split: option.splits)





lemma processEnhanced_ok:
  assumes "BigInt_or0 (enh_fee enh) = Inr feeLamports"
    and "extractJitoTip enh = Inr (tipTotal, breakdown)"
  shows
    "processEnhanced sha256Hex cfg t sig meta enh s =
       Inr ((if 0 < bestStable (bestStableDelta (extractOwnerMintDeltas enh)) \<or> 0 < tipTotal
             then s\<lparr> fpStats :=
                       bumpFingerprint t (enh_fingerprint sha256Hex enh) (enh_feePayer enh)
                         \<lparr> fee = feeLamports, tip = tipTotal,
                           stable = bestStable (bestStableDelta (extractOwnerMintDeltas enh)) \<rparr>
                         \<lparr> ex_sig = sig, ex_programs = programsInteresting_of enh,
                           ex_mints = extractChangedMints enh,
                           ex_typeSource = enh_type enh @ '':'' @ enh_source enh \<rparr>
                         (fpStats s),
                     programStats :=
                       foldl (\<lambda>tbl pid. bumpProgram pid
                                \<lparr> fee = feeLamports, tip = tipTotal,
                                  stable = bestStable (bestStableDelta (extractOwnerMintDeltas enh)) \<rparr>
                                tbl)
                         (programStats s) (programsInteresting_of enh) \<rparr>
             else s)
            \<lparr> outStream := outStream s
                   @ [make_record sha256Hex cfg sig meta enh feeLamports tipTotal breakdown],
              processed := processed s + 1,
              pending := map_delete sig (pending s) \<rparr>)"
  using assms by (simp add: processEnhanced_def Let_def)

lemma make_record_signature:
  "rec_signature (make_record sha256Hex cfg sig meta enh f tp bd) = sig"
  by (simp add: make_record_def Let_def)



lemma tipped_tx_facts:
  "BigInt_or0 (enh_fee tipped_tx) = Inr 5000"
  "extractJitoTip tipped_tx = Inr (10000, [(''96gYZGLnJYVFmbjzopPSU6QiEV5fGqZNyN9nmNhvrZU5'', 10000)])"
  "bestStable (bestStableDelta (extractOwnerMintDeltas tipped_tx)) = 0"
  "programsInteresting_of tipped_tx = [''JUP6LkbZbjS1jKKwapdHNy74zcZ3tLUZoi5QNyVTaV4'']"
  "extractChangedMints tipped_tx = []"
  by (simp_all add: tipped_tx_def BigInt_or0_def extractJitoTip_def JITO_TIP_ACCOUNTS_def
      bestStableDelta_def extractOwnerMintDeltas_def ownerMint_map_def plain_object_def
      programsInteresting_of_def
      extractPrograms_def sortUnique_def truthy_def NOISE_PROGRAMS_def extractChangedMints_def)



subsection \<open>A signature can come back\<close>

lemma map_has_delete: "\<not> map_has (map_delete k m) k"
  by (auto simp: map_has_def map_delete_def)

lemma processEnhanced_pending:
  "processEnhanced sha256Hex cfg t sig meta enh s = Inr s1 \<Longrightarrow>
   pending s1 = map_delete sig (pending s)"
  by (auto simp: processEnhanced_def Let_def split: sum.splits prod.splits if_splits)

lemma process_one_leaves:
  assumes "map_get (pending s) sig = Some meta"
    and "process_one sha256Hex cfg t enhanced sig s = Inr s1"
    and "bySig_get enhanced sig \<noteq> None \<or> MAX_MISSING_RETRIES cfg \<le> attempts meta"
  shows "\<not> map_has (pending s1) sig"
proof (cases "bySig_get enhanced sig")
  case None
  with assms have "s1 = markMissing cfg t sig meta s" "MAX_MISSING_RETRIES cfg \<le> attempts meta"
    by (auto simp: process_one_def)
  then show ?thesis by (simp add: markMissing_def Let_def map_has_delete)
next
  case (Some enh)
  with assms have "processEnhanced sha256Hex cfg t sig meta enh s = Inr s1"
    by (simp add: process_one_def)
  then show ?thesis using processEnhanced_pending map_has_delete by metis
qed

lemma batch1_first_ingest: "ingest cfg_batch1 init_state first_call = one_pending"
  by (simp add: one_pending_def ingest_def tryIngestSignature_def cfg_batch1_def load_config_def
      default_env_def init_state_def map_has_def first_call_def new_entry_def slot_or_null_def
      str_or_null_def)

lemma batch1_consts:
  "BATCH_SIZE cfg_batch1 = 1" "maxScan cfg_batch1 = 500" "MAX_PENDING cfg_batch1 = 50000"
  "INGRESS_SAMPLE_PCT cfg_batch1 = 1" "INITIAL_DELAY_MS cfg_batch1 = 1500"
  "MAX_MISSING_RETRIES cfg_batch1 = 6"
  by (simp_all add: cfg_batch1_def load_config_def default_env_def maxScan_def clampInt_def)

lemma fetch_resolves: "fst (fetchEnhancedBatch resolves sigs) = Inr [tipped_tx]"
  by (simp add: fetchEnhancedBatch_def resolves_def eval_nat_numeral)

lemma after_first_tick_eq:
  "after_first_tick sha256Hex =
     one_pending\<lparr> scanIdx := 1, pending := [],
       fpStats := bumpFingerprint 2100 (enh_fingerprint sha256Hex tipped_tx) ''payer1''
                    \<lparr> fee = 5000, tip = 10000, stable = 0 \<rparr>
                    \<lparr> ex_sig = ''5VERv8'',
                      ex_programs = [''JUP6LkbZbjS1jKKwapdHNy74zcZ3tLUZoi5QNyVTaV4''],
                      ex_mints = [], ex_typeSource = ''SWAP:JUPITER'' \<rparr> [],
       programStats := bumpProgram ''JUP6LkbZbjS1jKKwapdHNy74zcZ3tLUZoi5QNyVTaV4''
                    \<lparr> fee = 5000, tip = 10000, stable = 0 \<rparr> [],
       outStream := [make_record sha256Hex cfg_batch1 ''5VERv8'' (snd (hd (pending one_pending)))
                       tipped_tx 5000 10000
                       [(''96gYZGLnJYVFmbjzopPSU6QiEV5fGqZNyN9nmNhvrZU5'', 10000)]],
       processed := 1 \<rparr>"
proof -
  have sel: "selectReadyBatch cfg_batch1 2000 one_pending
      = (one_pending\<lparr> scanIdx := 1 \<rparr>, [''5VERv8''])"
    by (simp add: one_pending_def selectReadyBatch_def select_loop_step select_loop_stop
        batch1_consts init_state_def scan_pos_def ready_at_def map_get_def)
  have sg: "enh_signature tipped_tx = ''5VERv8''" "enh_feePayer tipped_tx = ''payer1''"
    "enh_type tipped_tx = ''SWAP''" "enh_source tipped_tx = ''JUPITER''"
    by (simp_all add: tipped_tx_def)
  show ?thesis
    unfolding after_first_tick_def batch1_first_ingest batcherTick_def sel fetch_resolves
    by (simp add: one_pending_def init_state_def batcherFinish_def process_one_def bySig_get_def
        map_get_def sg processEnhanced_ok[OF tipped_tx_facts(1,2)] tipped_tx_facts
        map_delete_def)
qed


lemma after_second_tick_counts:
  "processed (after_second_tick sha256Hex) = 2
   \<and> ingested (after_second_tick sha256Hex) = 2
   \<and> map rec_signature (outStream (after_second_tick sha256Hex)) = [''5VERv8'', ''5VERv8'']
   \<and> fp_count_of (fpStats (after_second_tick sha256Hex)) (enh_fingerprint sha256Hex tipped_tx) = 2
   \<and> pg_count_of (programStats (after_second_tick sha256Hex))
        ''JUP6LkbZbjS1jKKwapdHNy74zcZ3tLUZoi5QNyVTaV4'' = 2"
proof -
  let ?s1 = "after_first_tick sha256Hex"
  let ?s2 = "ingest cfg_batch1 ?s1 second_call"
  have p1: "pending ?s1 = []" "pendingOrder ?s1 = [''5VERv8'']" "scanIdx ?s1 = 1"
    "inFlight ?s1 = False" "ingested ?s1 = 1" "processed ?s1 = 1"
    by (simp_all add: after_first_tick_eq one_pending_def init_state_def)
  let ?meta = "\<lparr> seenAtMs = 5000, hintSlot = Some 8, attempts = 0, nextAttemptAtMs = 6500,
                  source = Some ''jito_tip_program'' \<rparr>"
  have s2: "?s2 = ?s1\<lparr> pending := [(''5VERv8'', ?meta)],
                      pendingOrder := [''5VERv8'', ''5VERv8''], ingested := 2 \<rparr>"
    by (simp add: ingest_def tryIngestSignature_def p1 batch1_consts map_has_def second_call_def
        first_call_def new_entry_def slot_or_null_def str_or_null_def)
  have sel: "selectReadyBatch cfg_batch1 7000 ?s2 = (?s2\<lparr> scanIdx := 2 \<rparr>, [''5VERv8''])"
    unfolding s2
    by (simp add: selectReadyBatch_def select_loop_step select_loop_stop batch1_consts p1
        scan_pos_def ready_at_def map_get_def)
  have sg: "enh_signature tipped_tx = ''5VERv8''" by (simp add: tipped_tx_def)
  have run: "\<not> inFlight ?s2" "length (pending ?s2) \<noteq> 0" by (simp_all add: s2 p1)
  have tick: "after_second_tick sha256Hex =
      batcherFinish sha256Hex cfg_batch1 (\<lambda>i. 7100) 7100 [''5VERv8''] (Inr [tipped_tx])
        (?s2\<lparr> scanIdx := 2, inFlight := True \<rparr>)"
    unfolding after_second_tick_def batcherTick_def sel fetch_resolves using run by simp
  define s3 where "s3 = ?s2\<lparr> scanIdx := 2, inFlight := True \<rparr>"
  have g3: "map_get (pending s3) ''5VERv8'' = Some ?meta" by (simp add: s3_def s2 map_get_def)
  have f3: "processed s3 = 1" "ingested s3 = 2"
    "fpStats s3 = bumpFingerprint 2100 (enh_fingerprint sha256Hex tipped_tx) ''payer1''
                    \<lparr> fee = 5000, tip = 10000, stable = 0 \<rparr>
                    \<lparr> ex_sig = ''5VERv8'',
                      ex_programs = [''JUP6LkbZbjS1jKKwapdHNy74zcZ3tLUZoi5QNyVTaV4''],
                      ex_mints = [], ex_typeSource = ''SWAP:JUPITER'' \<rparr> []"
    "programStats s3 = bumpProgram ''JUP6LkbZbjS1jKKwapdHNy74zcZ3tLUZoi5QNyVTaV4''
                    \<lparr> fee = 5000, tip = 10000, stable = 0 \<rparr> []"
    "map rec_signature (outStream s3) = [''5VERv8'']"
    unfolding s3_def s2
    by (simp_all add: after_first_tick_eq one_pending_def init_state_def make_record_signature)
  note pe = processEnhanced_ok[OF tipped_tx_facts(1,2),
      of sha256Hex cfg_batch1 7100 "''5VERv8''" ?meta s3]
  have fin: "after_second_tick sha256Hex =
      (projr (processEnhanced sha256Hex cfg_batch1 7100 ''5VERv8'' ?meta tipped_tx s3))
        \<lparr> inFlight := False \<rparr>"
    unfolding tick s3_def[symmetric]
    by (simp add: batcherFinish_def process_one_def g3 bySig_get_def sg pe)
  have c0: "fp_count_of [] k = 0" "pg_count_of [] k' = 0" for k k'
    by (simp_all add: fp_count_of_def pg_count_of_def map_get_def)
  show ?thesis
    unfolding fin pe
    by (simp add: tipped_tx_facts f3 make_record_signature bumpFingerprint_count
        bumpProgram_count c0)
qed


text \<open>
  Claim C10. A pending signature leaves the buffer when its iteration of the tick enriches
  it or drops it after its last retry. A later call of \<^verbatim>\<open>tryIngestSignature\<close> with the
  same signature (not empty, not sampled out) is then accepted: the buffer holds a fresh
  entry for it, with no attempts, and \<open>ingested\<close> grows by one. So a signature can be
  processed more than once: in the run \<open>after_second_tick\<close> (sighted, enriched, sighted
  again, enriched again) the log holds two records of the one signature, \<open>processed\<close> is
  2, and the rows of its fingerprint and of its program both count 2.
\<close>

theorem signature_reingested_after_leaving:
  assumes "map_get (pending s) sig = Some meta"
    and "process_one sha256Hex cfg t enhanced sig s = Inr s1"
    and "bySig_get enhanced sig \<noteq> None \<or> MAX_MISSING_RETRIES cfg \<le> attempts meta"
    and "call_sig c = sig" and "sig \<noteq> []"
    and "\<not> (INGRESS_SAMPLE_PCT cfg < 1 \<and> INGRESS_SAMPLE_PCT cfg < call_rnd c)"
  shows "\<not> map_has (pending s1) sig
    \<and> map_get (pending (ingest cfg s1 c)) sig =
        Some \<lparr> seenAtMs = call_now c, hintSlot = slot_or_null (call_hint c), attempts = 0,
               nextAttemptAtMs = call_now c + INITIAL_DELAY_MS cfg,
               source = str_or_null (call_source c) \<rparr>
    \<and> ingested (ingest cfg s1 c) = ingested s1 + 1
    \<and> processed (after_second_tick h) = 2
    \<and> map rec_signature (outStream (after_second_tick h)) = [''5VERv8'', ''5VERv8'']
    \<and> fp_count_of (fpStats (after_second_tick h)) (enh_fingerprint h tipped_tx) = 2
    \<and> pg_count_of (programStats (after_second_tick h))
         ''JUP6LkbZbjS1jKKwapdHNy74zcZ3tLUZoi5QNyVTaV4'' = 2"
proof -
  have gone: "\<not> map_has (pending s1) sig" by (rule process_one_leaves[OF assms(1-3)])
  then have acc: "accepted cfg s1 c" using assms(4-6) by (simp add: accepted_def)
  from ingest_accepted(1,2)[OF acc] assms(4)
  have "map_get (pending (ingest cfg s1 c)) sig =
        Some \<lparr> seenAtMs = call_now c, hintSlot = slot_or_null (call_hint c), attempts = 0,
               nextAttemptAtMs = call_now c + INITIAL_DELAY_MS cfg,
               source = str_or_null (call_source c) \<rparr>"
    and "ingested (ingest cfg s1 c) = ingested s1 + 1"
    by (simp_all add: entry_of_def new_entry_def)
  with gone after_second_tick_counts[of h] show ?thesis by simp
qed

theorem signature_reingested_after_leaving_witness:
  "map_get (pending one_pending) ''5VERv8'' \<noteq> None
   \<and> bySig_get [tipped_tx] ''5VERv8'' = Some tipped_tx
   \<and> call_sig second_call = ''5VERv8''
   \<and> \<not> INGRESS_SAMPLE_PCT cfg_batch1 < 1
   \<and> \<not> isl (process_one id cfg_batch1 2100 [tipped_tx] ''5VERv8'' one_pending)
   \<and> \<not> map_has (pending (projr (process_one id cfg_batch1 2100 [tipped_tx] ''5VERv8'' one_pending)))
         ''5VERv8''
   \<and> map_option attempts
        (map_get (pending (ingest cfg_batch1
            (projr (process_one id cfg_batch1 2100 [tipped_tx] ''5VERv8'' one_pending)) second_call))
           ''5VERv8'') = Some 0
   \<and> processed (after_second_tick id) = 2
   \<and> map rec_signature (outStream (after_second_tick id)) = [''5VERv8'', ''5VERv8'']"
proof -
  let ?meta = "\<lparr> seenAtMs = 0, hintSlot = Some 8, attempts = 0, nextAttemptAtMs = 1500,
                  source = Some ''jito_tip_program'' \<rparr>"
  have g: "map_get (pending one_pending) ''5VERv8'' = Some ?meta"
    by (simp add: one_pending_def map_get_def)
  have b: "bySig_get [tipped_tx] ''5VERv8'' = Some tipped_tx"
    by (simp add: bySig_get_def tipped_tx_def)
  have po: "process_one id cfg_batch1 2100 [tipped_tx] ''5VERv8'' one_pending
      = Inr (projr (process_one id cfg_batch1 2100 [tipped_tx] ''5VERv8'' one_pending))"
    by (simp add: process_one_def g b processEnhanced_ok[OF tipped_tx_facts(1,2)])
  have c: "call_sig second_call = ''5VERv8''" "''5VERv8'' \<noteq> []"
    by (simp_all add: second_call_def first_call_def)
  have p: "\<not> (INGRESS_SAMPLE_PCT cfg_batch1 < 1 \<and> INGRESS_SAMPLE_PCT cfg_batch1 < call_rnd second_call)"
    by (simp add: batch1_consts)
  have r: "\<not> isl (process_one id cfg_batch1 2100 [tipped_tx] ''5VERv8'' one_pending)"
    by (subst po) simp
  from signature_reingested_after_leaving[OF g po _ c p, of id] b g c r
  show ?thesis by (simp add: batch1_consts)
qed

subsection \<open>The snapshot is written in place\<close>

text \<open>
  Claim C9, as stated, fails: the one file-system call of \<^verbatim>\<open>writeSummary\<close> is not a
  write to a temporary file followed by a rename over the snapshot path.
\<close>

theorem snapshot_not_temp_then_rename:
  "\<not> spec_temp_then_rename (SUMMARY_FILE cfg_default) (writeSummary cfg_default 60000 one_pending)"
  by (simp add: writeSummary_def)

text \<open>
  Claim C9, amended. Every snapshot write is a single \<^verbatim>\<open>writeFileSync\<close> of the
  serialised summary straight to the snapshot path; nothing is renamed, and no path
  makes the calls a temp-then-rename replacement.
\<close>

theorem snapshot_written_in_place:
  "writeSummary cfg t s = [WriteFileSync (SUMMARY_FILE cfg) (summary_of cfg t s)]
   \<and> (\<nexists>tmp dst. RenameSync tmp dst \<in> set (writeSummary cfg t s))
   \<and> (\<nexists>path. spec_temp_then_rename path (writeSummary cfg t s))
   \<and> c_pending (counters (summary_of cfg t s)) = length (pending s)"
  by (simp add: writeSummary_def summary_of_def Let_def)

subsection \<open>The fingerprint payload determines its four inputs\<close>

lemma hex_digit_inj:
  assumes "m < 16" "n < 16" "hex_digit m = hex_digit n"
  shows "m = n"
proof -
  have d: "distinct ''0123456789abcdef''" by simp
  have l: "length ''0123456789abcdef'' = 16" by simp
  from assms show ?thesis
    unfolding hex_digit_def using nth_eq_iff_index_eq[OF d, of m n] l by simp
qed

lemma escape_nonempty: "json_escape_char c \<noteq> []"
  by (simp add: json_escape_char_def)

lemma escape_not_quote: "hd (json_escape_char c) \<noteq> dquote"
  by (simp add: json_escape_char_def dquote_def bslash_def)

lemma control_eq:
  assumes "(of_char a :: nat) < 32" "(of_char b :: nat) < 32"
    and "hex_digit ((of_char a :: nat) div 16) = hex_digit ((of_char b :: nat) div 16)"
    and "hex_digit ((of_char a :: nat) mod 16) = hex_digit ((of_char b :: nat) mod 16)"
  shows "a = b"
proof -
  have "(of_char a :: nat) div 16 = (of_char b :: nat) div 16"
    using assms(1,2) by (intro hex_digit_inj[OF _ _ assms(3)]) simp_all
  moreover have "(of_char a :: nat) mod 16 = (of_char b :: nat) mod 16"
    by (intro hex_digit_inj[OF _ _ assms(4)]) simp_all
  ultimately have "(of_char a :: nat) = of_char b" by (metis div_mult_mod_eq)
  then show ?thesis by simp
qed

lemma escape_prefix_free:
  assumes "json_escape_char a @ r = json_escape_char b @ r'"
  shows "a = b \<and> r = r'"
  using assms control_eq[of a b]
  by (auto simp: json_escape_char_def dquote_def bslash_def split: if_splits)


lemma escaped_injective:
  "concat (map json_escape_char x) @ dquote # r = concat (map json_escape_char y) @ dquote # r'
   \<Longrightarrow> x = y \<and> r = r'"
proof (induction x arbitrary: y)
  case Nil
  show ?case
  proof (cases y)
    case Nil
    with Nil.prems show ?thesis by simp
  next
    case (Cons b ys)
    with Nil.prems have "dquote = hd (json_escape_char b @ concat (map json_escape_char ys) @ dquote # r')"
      by (metis append_Nil concat.simps(2) concat.simps(1) list.map(1) list.map(2) list.sel(1) append_assoc)
    then have "dquote = hd (json_escape_char b)" using escape_nonempty[of b] by simp
    then show ?thesis using escape_not_quote[of b] by simp
  qed
next
  case (Cons a xs)
  show ?case
  proof (cases y)
    case Nil
    with Cons.prems have "hd (json_escape_char a @ concat (map json_escape_char xs) @ dquote # r) = dquote"
      by simp
    then have "hd (json_escape_char a) = dquote" using escape_nonempty[of a] by simp
    then show ?thesis using escape_not_quote[of a] by simp
  next
    case (Cons b ys)
    with Cons.prems have
      "json_escape_char a @ (concat (map json_escape_char xs) @ dquote # r)
       = json_escape_char b @ (concat (map json_escape_char ys) @ dquote # r')" by simp
    from escape_prefix_free[OF this] Cons.IH[of ys] Cons show ?thesis by simp
  qed
qed

lemma json_string_injective:
  "json_string x @ r = json_string y @ r' \<Longrightarrow> x = y \<and> r = r'"
  using escaped_injective[of x r y r'] by (simp add: json_string_def)

lemma json_elems_Cons:
  "json_elems (x # xs) = json_string x @ (if xs = [] then [] else '','' @ json_elems xs)"
  by (cases xs) simp_all

lemma json_elems_injective:
  "json_elems xs @ CHR '']'' # r = json_elems ys @ CHR '']'' # r' \<Longrightarrow> xs = ys \<and> r = r'"
proof (induction xs arbitrary: ys)
  case Nil
  show ?case
  proof (cases ys)
    case Nil
    with Nil.prems show ?thesis by simp
  next
    case (Cons y ys')
    with Nil.prems show ?thesis
      by (simp add: json_elems_Cons json_string_def dquote_def)
  qed
next
  case (Cons x xs)
  show ?case
  proof (cases ys)
    case Nil
    with Cons.prems show ?thesis by (simp add: json_elems_Cons json_string_def dquote_def)
  next
    case ys: (Cons y ys')
    let ?tx = "(if xs = [] then [] else '','' @ json_elems xs) @ CHR '']'' # r"
    let ?ty = "(if ys' = [] then [] else '','' @ json_elems ys') @ CHR '']'' # r'"
    from Cons.prems ys have "json_string x @ ?tx = json_string y @ ?ty"
      by (simp add: json_elems_Cons)
    from json_string_injective[OF this] have xy: "x = y" and t: "?tx = ?ty" by simp_all
    show ?thesis
    proof (cases "xs = []")
      case True
      with t show ?thesis using xy ys by (cases "ys' = []") simp_all
    next
      case False
      with t show ?thesis using xy ys Cons.IH[of ys'] by (cases "ys' = []") simp_all
    qed
  qed
qed

lemma json_array_injective:
  "json_array xs @ r = json_array ys @ r' \<Longrightarrow> xs = ys \<and> r = r'"
  using json_elems_injective[of xs r ys r'] by (simp add: json_array_def)

lemma fpPayload_injective:
  assumes "fpPayload ty1 src1 ps1 ms1 = fpPayload ty2 src2 ps2 ms2"
  shows "ty1 = ty2 \<and> src1 = src2 \<and> ps1 = ps2 \<and> ms1 = ms2"
proof -
  let ?k2 = "'','' @ json_string ''source'' @ '':''"
  let ?k3 = "'','' @ json_string ''programs'' @ '':''"
  let ?k4 = "'','' @ json_string ''mints'' @ '':''"
  from assms have
    "json_string ty1 @ (?k2 @ json_string src1 @ ?k3 @ json_array ps1 @ ?k4 @ json_array ms1 @ ''}'')
     = json_string ty2 @ (?k2 @ json_string src2 @ ?k3 @ json_array ps2 @ ?k4 @ json_array ms2 @ ''}'')"
    by (simp add: fpPayload_def)
  from json_string_injective[OF this] have 1: "ty1 = ty2"
    and "json_string src1 @ (?k3 @ json_array ps1 @ ?k4 @ json_array ms1 @ ''}'')
         = json_string src2 @ (?k3 @ json_array ps2 @ ?k4 @ json_array ms2 @ ''}'')"
    by simp_all
  from json_string_injective[OF this(2)] have 2: "src1 = src2"
    and "json_array ps1 @ (?k4 @ json_array ms1 @ ''}'')
         = json_array ps2 @ (?k4 @ json_array ms2 @ ''}'')"
    by simp_all
  from json_array_injective[OF this(2)] have 3: "ps1 = ps2"
    and "json_array ms1 @ ''}'' = json_array ms2 @ ''}''"
    by simp_all
  from json_array_injective[OF this(2)] have 4: "ms1 = ms2" by simp
  from 1 2 3 4 show ?thesis by simp
qed


text \<open>
  Claim C7, as stated, fails in its second half: the two records \<open>many_tx 33\<close> and
  \<open>many_tx 34\<close> have the same type, source and mints and different program sets (they
  differ in the 33rd program), and the same fingerprint under every digest.
\<close>

lemma replicate_le: "m \<le> n \<Longrightarrow> replicate m (c::char) \<le> replicate n c"
proof (induction m arbitrary: n)
  case 0
  show ?case by simp
next
  case (Suc m)
  then obtain n' where "n = Suc n'" "m \<le> n'" by (cases n) auto
  with Suc.IH[of n'] show ?case by simp
qed

lemma many_programs_sorted: "32 \<le> n \<Longrightarrow> sorted (many_programs n)"
proof -
  assume n: "32 \<le> n"
  have "sorted (map (\<lambda>i. replicate (Suc i) CHR ''A'') [0..<32])"
    by (rule sorted_map_mono[OF sorted_upt]) (simp add: mono_on_def replicate_le)
  moreover have "\<forall>x \<in> set (map (\<lambda>i. replicate (Suc i) CHR ''A'') [0..<32]).
      x \<le> replicate n CHR ''A''"
  proof
    fix x assume "x \<in> set (map (\<lambda>i. replicate (Suc i) CHR ''A'') [0..<32])"
    then obtain i where "i < 32" "x = replicate (Suc i) CHR ''A''" by auto
    then show "x \<le> replicate n CHR ''A''" using n replicate_le[of "Suc i" n] by simp
  qed
  ultimately show ?thesis by (simp add: many_programs_def sorted_append)
qed

lemma many_programs_distinct: "32 < n \<Longrightarrow> distinct (many_programs n)"
proof -
  assume n: "32 < n"
  have "inj_on (\<lambda>i. replicate (Suc i) CHR ''A'') (set [0..<32])"
    by (rule inj_onI) (metis length_replicate nat.inject)
  then have "distinct (map (\<lambda>i. replicate (Suc i) CHR ''A'') [0..<32])"
    by (simp add: distinct_map)
  moreover have "replicate n CHR ''A'' \<notin> set (map (\<lambda>i. replicate (Suc i) CHR ''A'') [0..<32])"
  proof
    assume "replicate n CHR ''A'' \<in> set (map (\<lambda>i. replicate (Suc i) CHR ''A'') [0..<32])"
    then obtain i where "i < 32" "replicate n CHR ''A'' = replicate (Suc i) CHR ''A''" by auto
    then have "n = Suc i" by (metis length_replicate)
    with \<open>i < 32\<close> n show False by simp
  qed
  ultimately show ?thesis by (simp add: many_programs_def)
qed

lemma many_programs_letters: "p \<in> set (many_programs n) \<Longrightarrow> set p \<subseteq> {CHR ''A''}"
  by (auto simp: many_programs_def)

lemma truthy_singletons: "concat (map (\<lambda>p. truthy [p] @ truthy []) ps) = truthy ps"
  by (induction ps) (simp_all add: truthy_def)

lemma many_tx_programs:
  assumes "32 < n"
  shows "programsInteresting_of (many_tx n) = many_programs n"
proof -
  have ne: "[] \<notin> set (many_programs n)" using assms by (auto simp: many_programs_def)
  then have t: "truthy (many_programs n) = many_programs n"
    by (simp add: truthy_def filter_id_conv) metis
  have ex: "extractPrograms (many_tx n) = many_programs n"
    using many_programs_sorted[of n] many_programs_distinct[OF assms] assms
    by (simp add: extractPrograms_def many_tx_def comp_def truthy_singletons t sortUnique_def
        distinct_remdups_id sorted_sort_id)
  have "p \<notin> set NOISE_PROGRAMS" if "p \<in> set (many_programs n)" for p
    using many_programs_letters[OF that] by (auto simp: NOISE_PROGRAMS_def)
  then show ?thesis by (simp add: programsInteresting_of_def ex filter_id_conv)
qed

theorem fingerprint_ignores_33rd_program:
  "programsInteresting_of (many_tx 33) \<noteq> programsInteresting_of (many_tx 34)
   \<and> enh_type (many_tx 33) = enh_type (many_tx 34)
   \<and> enh_source (many_tx 33) = enh_source (many_tx 34)
   \<and> extractChangedMints (many_tx 33) = extractChangedMints (many_tx 34)
   \<and> (\<forall>sha256Hex. enh_fingerprint sha256Hex (many_tx 33) = enh_fingerprint sha256Hex (many_tx 34))"
proof -
  have a: "programsInteresting_of (many_tx 33) = many_programs 33"
    and b: "programsInteresting_of (many_tx 34) = many_programs 34"
    by (simp_all add: many_tx_programs)
  have "last (many_programs 33) \<noteq> last (many_programs 34)"
    by (simp add: many_programs_def)
  then have ne: "many_programs 33 \<noteq> many_programs 34" by metis
  have tk: "take 32 (many_programs 33) = take 32 (many_programs 34)"
    by (simp add: many_programs_def)
  have m: "extractChangedMints (many_tx 33) = extractChangedMints (many_tx 34)"
    "enh_type (many_tx 33) = enh_type (many_tx 34)"
    "enh_source (many_tx 33) = enh_source (many_tx 34)"
    by (simp_all add: many_tx_def extractChangedMints_def)
  show ?thesis using ne tk m by (simp add: a b enh_fingerprint_def fingerprint_of_def)
qed


lemma enh_fingerprint_payload: "enh_fingerprint sha256Hex enh = sha256Hex (enh_payload enh)"
  by (simp add: enh_fingerprint_def fingerprint_of_def enh_payload_def)

text \<open>
  Claim C7, amended. Two records with the same type, the same source, the same first 32
  noise-filtered programs and the same first 32 changed mints get the same fingerprint.
  The text that is hashed is the same for two records exactly when these four capped
  inputs are the same; so two records that differ in one of them get different
  fingerprints whenever the digest does not collide on their two texts. Programs and
  mints beyond the 32nd do not enter the fingerprint.
\<close>

theorem fingerprint_determined_by_capped_inputs:
  "(enh_type a = enh_type b \<and> enh_source a = enh_source b
      \<and> take 32 (programsInteresting_of a) = take 32 (programsInteresting_of b)
      \<and> take 32 (extractChangedMints a) = take 32 (extractChangedMints b)
    \<longrightarrow> enh_fingerprint sha256Hex a = enh_fingerprint sha256Hex b)
   \<and> (enh_payload a = enh_payload b \<longleftrightarrow>
        enh_type a = enh_type b \<and> enh_source a = enh_source b
        \<and> take 32 (programsInteresting_of a) = take 32 (programsInteresting_of b)
        \<and> take 32 (extractChangedMints a) = take 32 (extractChangedMints b))
   \<and> (inj_on sha256Hex {enh_payload a, enh_payload b}
        \<and> (enh_type a \<noteq> enh_type b \<or> enh_source a \<noteq> enh_source b
            \<or> take 32 (programsInteresting_of a) \<noteq> take 32 (programsInteresting_of b)
            \<or> take 32 (extractChangedMints a) \<noteq> take 32 (extractChangedMints b))
    \<longrightarrow> enh_fingerprint sha256Hex a \<noteq> enh_fingerprint sha256Hex b)"
proof -
  have pay: "enh_payload a = enh_payload b \<longleftrightarrow>
        enh_type a = enh_type b \<and> enh_source a = enh_source b
        \<and> take 32 (programsInteresting_of a) = take 32 (programsInteresting_of b)
        \<and> take 32 (extractChangedMints a) = take 32 (extractChangedMints b)"
    unfolding enh_payload_def using fpPayload_injective by metis
  have inj: "enh_payload a = enh_payload b"
    if "inj_on sha256Hex {enh_payload a, enh_payload b}"
      and "enh_fingerprint sha256Hex a = enh_fingerprint sha256Hex b"
  proof (rule inj_onD[OF that(1)])
    show "sha256Hex (enh_payload a) = sha256Hex (enh_payload b)"
      using that(2) by (simp add: enh_fingerprint_payload)
  qed simp_all
  have fwd: "enh_fingerprint sha256Hex a = enh_fingerprint sha256Hex b"
    if "enh_payload a = enh_payload b"
    using that by (simp add: enh_fingerprint_payload)
  show ?thesis using pay inj fwd by blast
qed

theorem fingerprint_determined_by_capped_inputs_witness:
  "enh_type (many_tx 33) = enh_type (many_tx 34)
   \<and> enh_source (many_tx 33) = enh_source (many_tx 34)
   \<and> take 32 (programsInteresting_of (many_tx 33)) = take 32 (programsInteresting_of (many_tx 34))
   \<and> take 32 (extractChangedMints (many_tx 33)) = take 32 (extractChangedMints (many_tx 34))
   \<and> enh_fingerprint id (many_tx 33) = enh_fingerprint id (many_tx 34)
   \<and> inj_on (id :: string \<Rightarrow> string) {enh_payload tipped_tx, enh_payload transfer_tx}
   \<and> enh_type tipped_tx \<noteq> enh_type transfer_tx
   \<and> enh_fingerprint id tipped_tx \<noteq> enh_fingerprint id transfer_tx"
proof -
  have tk: "take 32 (programsInteresting_of (many_tx 33)) = take 32 (programsInteresting_of (many_tx 34))"
    by (simp add: many_tx_programs) (simp add: many_programs_def)
  have m: "extractChangedMints (many_tx 33) = extractChangedMints (many_tx 34)"
    "enh_type (many_tx 33) = enh_type (many_tx 34)"
    "enh_source (many_tx 33) = enh_source (many_tx 34)"
    by (simp_all add: many_tx_def extractChangedMints_def)
  have ty: "enh_type tipped_tx \<noteq> enh_type transfer_tx"
    by (simp add: transfer_tx_def tipped_tx_def)
  have i: "inj_on (id :: string \<Rightarrow> string) {enh_payload tipped_tx, enh_payload transfer_tx}"
    by simp
  from fingerprint_determined_by_capped_inputs[of "many_tx 33" "many_tx 34" id]
    fingerprint_determined_by_capped_inputs[of tipped_tx transfer_tx id] tk m ty i
  show ?thesis by simp
qed

subsection \<open>A repeated signature uses up its retries in one tick\<close>

lemma process_one_empty:
  "process_one sha256Hex cfg t [] sig s = Inr (missing_outcome cfg sig s t)"
  by (simp add: process_one_def missing_outcome_def bySig_get_def split: option.splits)

lemma process_sigs_missing:
  "set sigs \<subseteq> {sig} \<Longrightarrow>
   process_sigs sha256Hex cfg clk [] i sigs s =
     (None, foldl (missing_outcome cfg sig) s (map clk [i..<i + length sigs]))"
proof (induction sigs arbitrary: i s)
  case Nil
  show ?case by simp
next
  case (Cons x sigs)
  then have x: "x = sig" and r: "set sigs \<subseteq> {sig}" by auto
  have u: "[i..<i + length (x # sigs)] = i # [Suc i..<Suc i + length sigs]"
    by (simp add: upt_rec)
  show ?case unfolding u using Cons.IH[OF r, of "Suc i"] by (simp add: x process_one_empty)
qed

lemma missing_outcomes_absent:
  "map_get (pending s) sig = None \<Longrightarrow> foldl (missing_outcome cfg sig) s ts = s"
  by (induction ts) (simp_all add: missing_outcome_absent)

lemma missing_outcomes_exhaust:
  assumes "map_get (pending s) sig = Some meta" "attempts meta = 0"
    and "MAX_MISSING_RETRIES cfg < length ts"
  shows "map_get (pending (foldl (missing_outcome cfg sig) s ts)) sig = None
    \<and> droppedMissing (foldl (missing_outcome cfg sig) s ts) = droppedMissing s + 1"
proof -
  let ?n = "MAX_MISSING_RETRIES cfg"
  obtain t where ts: "ts = take ?n ts @ t # drop (Suc ?n) ts"
    using assms(3) id_take_nth_drop by blast
  let ?s1 = "foldl (missing_outcome cfg sig) s (take ?n ts)"
  have len: "length (take ?n ts) \<le> ?n" by simp
  from missing_outcomes_retry[OF assms(1,2) len]
  obtain m where m: "map_get (pending ?s1) sig = Some m" "attempts m = length (take ?n ts)"
    "droppedMissing ?s1 = droppedMissing s" by simp
  have "?n \<le> attempts m" using m(2) assms(3) by simp
  from missing_outcome_drop[OF m(1) this, of t]
  have d: "map_get (pending (missing_outcome cfg sig ?s1 t)) sig = None"
    "droppedMissing (missing_outcome cfg sig ?s1 t) = droppedMissing s + 1"
    using m(3) by simp_all
  have "foldl (missing_outcome cfg sig) s ts
      = foldl (missing_outcome cfg sig) (missing_outcome cfg sig ?s1 t) (drop (Suc ?n) ts)"
    by (subst ts) simp
  also have "\<dots> = missing_outcome cfg sig ?s1 t"
    by (rule missing_outcomes_absent[OF d(1)])
  finally show ?thesis using d by simp
qed

lemma missing_outcome_counted:
  "map_get (pending s) sig = Some meta \<Longrightarrow>
   enhancedMissing (missing_outcome cfg sig s t) = enhancedMissing s + 1"
  by (simp add: missing_outcome_def process_one_def bySig_get_def markMissing_def Let_def)

lemma missing_outcomes_retry_counted:
  assumes "map_get (pending s) sig = Some meta" "attempts meta = 0"
    and "length ts \<le> MAX_MISSING_RETRIES cfg"
  shows "enhancedMissing (foldl (missing_outcome cfg sig) s ts) = enhancedMissing s + length ts"
  using assms(3)
proof (induction ts rule: rev_induct)
  case Nil
  show ?case by simp
next
  case (snoc t ts)
  let ?s = "foldl (missing_outcome cfg sig) s ts"
  have len: "length ts \<le> MAX_MISSING_RETRIES cfg" using snoc.prems by simp
  from missing_outcomes_retry[OF assms(1,2) len]
  obtain m where m: "map_get (pending ?s) sig = Some m" by simp
  show ?case using missing_outcome_counted[OF m, of cfg t] snoc.IH[OF len] by simp
qed

lemma missing_outcomes_exhaust_counted:
  assumes "map_get (pending s) sig = Some meta" "attempts meta = 0"
    and "MAX_MISSING_RETRIES cfg < length ts"
  shows "enhancedMissing (foldl (missing_outcome cfg sig) s ts)
           = enhancedMissing s + MAX_MISSING_RETRIES cfg + 1"
proof -
  let ?n = "MAX_MISSING_RETRIES cfg"
  obtain t where ts: "ts = take ?n ts @ t # drop (Suc ?n) ts"
    using assms(3) id_take_nth_drop by blast
  let ?s1 = "foldl (missing_outcome cfg sig) s (take ?n ts)"
  have len: "length (take ?n ts) \<le> ?n" by simp
  from missing_outcomes_retry[OF assms(1,2) len]
  obtain m where m: "map_get (pending ?s1) sig = Some m" "attempts m = length (take ?n ts)"
    by simp
  have c1: "enhancedMissing ?s1 = enhancedMissing s + ?n"
    using missing_outcomes_retry_counted[OF assms(1,2) len] assms(3) by simp
  have "?n \<le> attempts m" using m(2) assms(3) by simp
  from missing_outcome_drop[OF m(1) this, of t]
  have d: "map_get (pending (missing_outcome cfg sig ?s1 t)) sig = None" by simp
  have "foldl (missing_outcome cfg sig) s ts
      = foldl (missing_outcome cfg sig) (missing_outcome cfg sig ?s1 t) (drop (Suc ?n) ts)"
    by (subst ts) simp
  also have "\<dots> = missing_outcome cfg sig ?s1 t"
    by (rule missing_outcomes_absent[OF d])
  finally show ?thesis using missing_outcome_counted[OF m(1), of cfg t] c1 by simp
qed

text \<open>
  Claim C3. A signature is meant to be dropped after \<^verbatim>\<open>MAX_MISSING_RETRIES + 1\<close> missing
  responses, and to stay for a later attempt, with a backoff, after each earlier one. With
  the default configuration (six retries) and one pending signature that has had no
  attempt, the batch names the signature a hundred times; a single response that lacks
  it runs the missing branch for it until the entry is deleted: it is counted missing
  seven times, dropped, and gone from the buffer after this one response.
\<close>

theorem lone_signature_dropped_in_one_tick:
  "map_option attempts (map_get (pending one_pending) ''5VERv8'') = Some 0
   \<and> MAX_MISSING_RETRIES cfg_default = 6
   \<and> length (snd (selectReadyBatch cfg_default 2000 one_pending)) = 100
   \<and> set (snd (selectReadyBatch cfg_default 2000 one_pending)) = {''5VERv8''}
   \<and> map_get (pending (batcherTick sha256Hex cfg_default resolves_none 3600000 2000 clk tnow
                       one_pending)) ''5VERv8'' = None
   \<and> droppedMissing (batcherTick sha256Hex cfg_default resolves_none 3600000 2000 clk tnow
                       one_pending) = 1
   \<and> enhancedMissing (batcherTick sha256Hex cfg_default resolves_none 3600000 2000 clk tnow
                       one_pending) = 7"
proof -
  obtain s1 sigs where sel: "selectReadyBatch cfg_default 2000 one_pending = (s1, sigs)"
    by (cases "selectReadyBatch cfg_default 2000 one_pending")
  with lone_batch_selected have s1: "s1 = one_pending\<lparr> scanIdx := 1 \<rparr>"
    and len: "length sigs = 100" and st: "set sigs = {''5VERv8''}" by simp_all
  have ne: "sigs \<noteq> []" using len by auto
  let ?s2 = "s1\<lparr> inFlight := True \<rparr>"
  let ?meta = "\<lparr> seenAtMs = 0, hintSlot = Some 8, attempts = 0, nextAttemptAtMs = 1500,
                  source = Some ''jito_tip_program'' \<rparr>"
  have g0: "map_option attempts (map_get (pending one_pending) ''5VERv8'') = Some 0"
    by (simp add: one_pending_def map_get_def)
  have g: "map_get (pending ?s2) ''5VERv8'' = Some ?meta"
    by (simp add: s1 one_pending_def map_get_def)
  have d0: "droppedMissing ?s2 = 0" "enhancedMissing ?s2 = 0"
    by (simp_all add: s1 one_pending_def init_state_def)
  have m6: "MAX_MISSING_RETRIES cfg_default = 6"
    by (simp add: cfg_default_def load_config_def default_env_def)
  have mx: "MAX_MISSING_RETRIES cfg_default < length (map clk [0..<0 + length sigs])"
    by (simp add: len m6)
  have f: "fst (fetchEnhancedBatch resolves_none sigs) = Inr []"
    by (simp add: fetchEnhancedBatch_def resolves_none_def eval_nat_numeral)
  have run: "\<not> inFlight one_pending" "length (pending one_pending) \<noteq> 0"
    by (simp_all add: one_pending_def init_state_def)
  have tick: "batcherTick sha256Hex cfg_default resolves_none 3600000 2000 clk tnow one_pending
      = (foldl (missing_outcome cfg_default ''5VERv8'') ?s2 (map clk [0..<0 + length sigs]))
          \<lparr> inFlight := False \<rparr>"
  proof -
    have sub: "set sigs \<subseteq> {''5VERv8''}" using st by simp
    show ?thesis
      using run ne
      by (simp add: batcherTick_def sel f batcherFinish_def process_sigs_missing[OF sub])
  qed
  from missing_outcomes_exhaust[OF g _ mx] missing_outcomes_exhaust_counted[OF g _ mx] d0 m6
    g0 len st
  show ?thesis unfolding tick sel by simp
qed

subsection \<open>A call that times out on every attempt\<close>

lemma fetch_timed_out:
  "fetchEnhancedBatch timed_out sigs = (Inr [], [250, 500, 1000, 2000, 4000, 8000])"
proof -
  have r: "retryable \<lparr> statusCode = None, message = ''HTTP request timeout'' \<rparr>"
    by (simp add: retryable_def toLowerCase_def)
  have six: "(6::nat) = Suc (Suc (Suc (Suc (Suc (Suc 0)))))" by simp
  show ?thesis
    unfolding fetchEnhancedBatch_def six by (simp add: timed_out_def r)
qed

text \<open>
  Claim C5. A batch whose enrichment call fails at the transport level is meant to stay
  in the buffer, rescheduled, with nothing else changed. When every attempt of the call
  times out, \<^verbatim>\<open>fetchEnhancedBatch\<close> throws nothing and returns the empty array (line
  247), and the tick treats the batch as missing: with \<^verbatim>\<open>MAX_MISSING_RETRIES=0\<close> the
  one signature of the batch is deleted from the buffer and counted in
  \<open>droppedMissing\<close>, and neither error counter moves.
\<close>

theorem timed_out_batch_is_dropped:
  "fst (fetchEnhancedBatch timed_out [''5VERv8'']) = Inr []
   \<and> snd (selectReadyBatch cfg_no_retry 2000 one_pending) = [''5VERv8'']
   \<and> map_get (pending one_pending) ''5VERv8'' \<noteq> None
   \<and> map_get (pending (batcherTick sha256Hex cfg_no_retry timed_out 3600000 2000
                          (\<lambda>i. 18000) 18000 one_pending)) ''5VERv8'' = None
   \<and> droppedMissing (batcherTick sha256Hex cfg_no_retry timed_out 3600000 2000
                          (\<lambda>i. 18000) 18000 one_pending) = droppedMissing one_pending + 1
   \<and> enhancedRateLimited (batcherTick sha256Hex cfg_no_retry timed_out 3600000 2000
                          (\<lambda>i. 18000) 18000 one_pending) = 0
   \<and> enhancedOtherErrors (batcherTick sha256Hex cfg_no_retry timed_out 3600000 2000
                          (\<lambda>i. 18000) 18000 one_pending) = 0"
proof -
  have cs: "BATCH_SIZE cfg_no_retry = 1" "maxScan cfg_no_retry = 500"
    "MAX_MISSING_RETRIES cfg_no_retry = 0"
    by (simp_all add: cfg_no_retry_def load_config_def default_env_def maxScan_def clampInt_def)
  have sel: "selectReadyBatch cfg_no_retry 2000 one_pending
      = (one_pending\<lparr> scanIdx := 1 \<rparr>, [''5VERv8''])"
    by (simp add: one_pending_def selectReadyBatch_def select_loop_step select_loop_stop
        cs init_state_def scan_pos_def ready_at_def map_get_def)
  have f: "fst (fetchEnhancedBatch timed_out [''5VERv8'']) = Inr []"
    by (simp add: fetch_timed_out)
  have tick: "batcherTick sha256Hex cfg_no_retry timed_out 3600000 2000 (\<lambda>i. 18000) 18000 one_pending
     = one_pending\<lparr> scanIdx := 1, enhancedMissing := 1, pending := [], droppedMissing := 1 \<rparr>"
    unfolding batcherTick_def sel f
    by (simp add: one_pending_def init_state_def batcherFinish_def process_one_def
        bySig_get_def markMissing_def cs map_get_def map_delete_def Let_def f)
  show ?thesis unfolding tick sel f
    by (simp add: one_pending_def init_state_def map_get_def)
qed

subsection \<open>Interleaved runs: the buffer stays within its capacity\<close>

lemma evict_loop_shrinks:
  assumes "set (map fst (pending s)) \<subseteq> set (drop (evictIdx s) (pendingOrder s))"
    and "pending s \<noteq> []"
  shows "length (pending (evict_loop s)) < length (pending s)
    \<and> set (map fst (pending (evict_loop s)))
        \<subseteq> set (drop (evictIdx (evict_loop s)) (pendingOrder (evict_loop s)))
    \<and> evictIdx (evict_loop s) \<le> length (pendingOrder (evict_loop s))"
  using assms
proof (induction s rule: evict_loop.induct)
  case (1 s)
  let ?i = "evictIdx s"
  let ?k = "pendingOrder s ! ?i"
  have lt: "?i < length (pendingOrder s)"
  proof (rule ccontr)
    assume "\<not> ?i < length (pendingOrder s)"
    then have "drop ?i (pendingOrder s) = []" by simp
    with "1.prems"(1) have "set (map fst (pending s)) = {}" by simp
    with "1.prems"(2) show False by simp
  qed
  have dr: "drop ?i (pendingOrder s) = ?k # drop (Suc ?i) (pendingOrder s)"
    using lt by (rule Cons_nth_drop_Suc[symmetric])
  show ?case
  proof (cases "map_has (pending s) ?k")
    case True
    have ev: "evict_loop s = s\<lparr> pending := map_delete ?k (pending s),
                 evictIdx := ?i + 1, evicted := evicted s + 1 \<rparr>"
      by (rule evict_loop_hit[OF lt True])
    from True obtain p where p: "p \<in> set (pending s)" "fst p = ?k"
      by (auto simp: map_has_def)
    then have len: "length (map_delete ?k (pending s)) < length (pending s)"
      unfolding map_delete_def by (intro length_filter_less[of p]) simp_all
    have keys: "set (map fst (map_delete ?k (pending s)))
        \<subseteq> set (drop (Suc ?i) (pendingOrder s))"
    proof
      fix x assume "x \<in> set (map fst (map_delete ?k (pending s)))"
      then have "x \<in> set (map fst (pending s))" "x \<noteq> ?k"
        by (auto simp: map_delete_def)
      with "1.prems"(1) dr show "x \<in> set (drop (Suc ?i) (pendingOrder s))"
        by (metis set_ConsD subsetD)
    qed
    show ?thesis unfolding ev using len keys lt by simp
  next
    case False
    let ?s1 = "s\<lparr> evictIdx := ?i + 1 \<rparr>"
    have ev: "evict_loop s = evict_loop ?s1"
      using lt False by (subst evict_loop.simps) simp
    have sub: "set (map fst (pending ?s1)) \<subseteq> set (drop (evictIdx ?s1) (pendingOrder ?s1))"
    proof
      fix x assume x: "x \<in> set (map fst (pending ?s1))"
      then have "x \<in> set (map fst (pending s))" by simp
      moreover from this False have "x \<noteq> ?k" unfolding map_has_def by blast
      ultimately have "x \<in> set (drop (Suc ?i) (pendingOrder s))"
        using "1.prems"(1) dr by (metis set_ConsD subsetD)
      then show "x \<in> set (drop (evictIdx ?s1) (pendingOrder ?s1))" by simp
    qed
    have ne: "pending ?s1 \<noteq> []" using "1.prems"(2) by simp
    from "1.IH"[OF lt False sub ne] show ?thesis unfolding ev by simp
  qed
qed

lemma ingest_accepted_at_capacity:
  assumes "accepted cfg s c" "MAX_PENDING cfg \<le> length (pending s)"
  shows "ingest cfg s c =
     (compact (evict_loop s))\<lparr>
        pending := map_set (call_sig c) (snd (entry_of cfg c)) (pending (compact (evict_loop s))),
        pendingOrder := pendingOrder (compact (evict_loop s)) @ [call_sig c],
        ingested := ingested (compact (evict_loop s)) + 1 \<rparr>"
  using assms
  by (auto simp: accepted_def ingest_def tryIngestSignature_def entry_of_def Let_def)

lemma map_set_length: "length (map_set k v m) \<le> Suc (length m)"
  by (induction m) auto

lemma map_set_keys: "set (map fst (map_set k v m)) = insert k (set (map fst m))"
  by (induction m) auto

lemma buffer_inv_ingest:
  assumes inv: "buffer_inv cfg s" and pos: "0 < MAX_PENDING cfg"
  shows "buffer_inv cfg (ingest cfg s c)"
proof (cases "accepted cfg s c")
  case False
  from ingest_not_accepted[OF False] inv show ?thesis by (simp add: buffer_inv_def)
next
  case acc: True
  show ?thesis
  proof (cases "length (pending s) < MAX_PENDING cfg")
    case True
    have ing: "ingest cfg s c = s\<lparr> pending := pending s @ [entry_of cfg c],
        pendingOrder := pendingOrder s @ [call_sig c], ingested := ingested s + 1\<rparr>"
      by (rule ingest_accepted_room[OF acc True])
    have i: "evictIdx s \<le> length (pendingOrder s)"
      and k: "set (map fst (pending s)) \<subseteq> set (drop (evictIdx s) (pendingOrder s))"
      using inv by (simp_all add: buffer_inv_def)
    have "set (map fst (pending s @ [entry_of cfg c]))
        \<subseteq> set (drop (evictIdx s) (pendingOrder s @ [call_sig c]))"
      using k i by (auto simp: entry_of_def)
    then show ?thesis unfolding ing using i True by (simp add: buffer_inv_def)
  next
    case False
    then have full: "MAX_PENDING cfg \<le> length (pending s)" by simp
    have ne: "pending s \<noteq> []" using full pos by auto
    have k: "set (map fst (pending s)) \<subseteq> set (drop (evictIdx s) (pendingOrder s))"
      and le: "length (pending s) \<le> MAX_PENDING cfg"
      using inv by (simp_all add: buffer_inv_def)
    let ?e = "evict_loop s"
    let ?s1 = "compact ?e"
    from evict_loop_shrinks[OF k ne]
    have e1: "length (pending ?e) < length (pending s)"
      and e2: "set (map fst (pending ?e)) \<subseteq> set (drop (evictIdx ?e) (pendingOrder ?e))"
      and e3: "evictIdx ?e \<le> length (pendingOrder ?e)" by simp_all
    have c1: "length (pending ?s1) < MAX_PENDING cfg" using e1 le by (simp add: compact_fields)
    have c2: "set (map fst (pending ?s1)) \<subseteq> set (drop (evictIdx ?s1) (pendingOrder ?s1))"
      using e2 by (simp add: compact_fields)
    have c3: "evictIdx ?s1 \<le> length (pendingOrder ?s1)" using e3 by (rule compact_fields(5))
    let ?m = "map_set (call_sig c) (snd (entry_of cfg c)) (pending ?s1)"
    have ing: "ingest cfg s c = ?s1\<lparr> pending := ?m,
        pendingOrder := pendingOrder ?s1 @ [call_sig c], ingested := ingested ?s1 + 1 \<rparr>"
      by (rule ingest_accepted_at_capacity[OF acc full])
    have l: "length ?m \<le> MAX_PENDING cfg"
      using map_set_length[of "call_sig c" "snd (entry_of cfg c)" "pending ?s1"] c1 by simp
    have "set (map fst ?m) \<subseteq> set (drop (evictIdx ?s1) (pendingOrder ?s1 @ [call_sig c]))"
      unfolding map_set_keys using c2 c3 by auto
    then show ?thesis unfolding ing using l c3 by (simp add: buffer_inv_def)
  qed
qed

lemma no_growth_refl: "no_growth s s"
  by (simp add: no_growth_def)

lemma no_growth_trans:
  assumes "no_growth a b" "no_growth b c"
  shows "no_growth a c"
proof -
  from assms have "pendingOrder c = pendingOrder a" "evictIdx c = evictIdx a"
    by (simp_all add: no_growth_def)
  moreover from assms have "set (map fst (pending c)) \<subseteq> set (map fst (pending a))"
    unfolding no_growth_def by blast
  moreover from assms have "length (pending c) \<le> length (pending a)"
    unfolding no_growth_def by linarith
  ultimately show ?thesis unfolding no_growth_def by blast
qed

lemma no_growth_inv:
  assumes "buffer_inv cfg s" "no_growth s s'"
  shows "buffer_inv cfg s'"
proof -
  from assms have "evictIdx s' \<le> length (pendingOrder s')"
    by (simp add: buffer_inv_def no_growth_def)
  moreover from assms
  have "set (map fst (pending s')) \<subseteq> set (drop (evictIdx s') (pendingOrder s'))"
    unfolding buffer_inv_def no_growth_def by (metis subset_trans)
  moreover from assms have "length (pending s') \<le> MAX_PENDING cfg"
    unfolding buffer_inv_def no_growth_def by linarith
  ultimately show ?thesis unfolding buffer_inv_def by blast
qed

lemma no_growth_delete:
  assumes "pendingOrder s' = pendingOrder s" "evictIdx s' = evictIdx s"
    and "pending s' = map_delete k (pending s)"
  shows "no_growth s s'"
proof -
  have "set (map fst (map_delete k (pending s))) \<subseteq> set (map fst (pending s))"
    unfolding map_delete_def by auto
  moreover have "length (map_delete k (pending s)) \<le> length (pending s)"
    unfolding map_delete_def by (rule length_filter_le)
  ultimately show ?thesis using assms by (simp add: no_growth_def del: set_map)
qed

lemma no_growth_same_keys:
  assumes "pendingOrder s' = pendingOrder s" "evictIdx s' = evictIdx s"
    and "map fst (pending s') = map fst (pending s)"
  shows "no_growth s s'"
proof -
  from assms(3) have "length (pending s') = length (pending s)" by (rule map_eq_imp_length_eq)
  then show ?thesis using assms by (simp add: no_growth_def del: set_map)
qed

lemma markMissing_no_growth:
  assumes "map_get (pending s) sig = Some meta0"
  shows "no_growth s (markMissing cfg t sig meta s)"
proof (cases "MAX_MISSING_RETRIES cfg < attempts meta + 1")
  case True
  have "markMissing cfg t sig meta s =
      s\<lparr> enhancedMissing := enhancedMissing s + 1, pending := map_delete sig (pending s),
         droppedMissing := droppedMissing s + 1 \<rparr>"
    using True by (simp add: markMissing_def Let_def)
  then show ?thesis
    by (intro no_growth_delete[where k = sig]) simp_all
next
  case False
  then obtain v where "markMissing cfg t sig meta s =
      s\<lparr> enhancedMissing := enhancedMissing s + 1, pending := map_set sig v (pending s) \<rparr>"
    by (simp add: markMissing_def Let_def)
  then show ?thesis
    by (intro no_growth_same_keys) (simp_all add: map_set_keys_get[OF assms])
qed

lemma processEnhanced_order:
  "processEnhanced sha256Hex cfg t sig meta enh s = Inr s1 \<Longrightarrow>
   pendingOrder s1 = pendingOrder s \<and> evictIdx s1 = evictIdx s"
  by (auto simp: processEnhanced_def Let_def split: sum.splits prod.splits if_splits)

lemma process_one_no_growth:
  assumes "process_one sha256Hex cfg t enhanced sig s = Inr s1"
  shows "no_growth s s1"
proof (cases "map_get (pending s) sig")
  case None
  with assms have "s1 = s" by (simp add: process_one_def)
  then show ?thesis by (simp add: no_growth_refl)
next
  case (Some meta)
  show ?thesis
  proof (cases "bySig_get enhanced sig")
    case None
    with Some assms have "s1 = markMissing cfg t sig meta s" by (simp add: process_one_def)
    then show ?thesis using markMissing_no_growth[OF Some] by simp
  next
    case (Some enh)
    with \<open>map_get (pending s) sig = Some meta\<close> assms
    have pe: "processEnhanced sha256Hex cfg t sig meta enh s = Inr s1"
      by (simp add: process_one_def)
    show ?thesis
      using processEnhanced_order[OF pe] processEnhanced_pending[OF pe]
      by (intro no_growth_delete[where k = sig]) simp_all
  qed
qed

lemma process_sigs_no_growth:
  "no_growth s (snd (process_sigs sha256Hex cfg clk enhanced i sigs s))"
proof (induction sigs arbitrary: i s)
  case Nil
  show ?case by (simp add: no_growth_refl)
next
  case (Cons sig sigs)
  show ?case
  proof (cases "process_one sha256Hex cfg (clk i) enhanced sig s")
    case (Inl e)
    then show ?thesis by (simp add: no_growth_refl)
  next
    case (Inr s')
    have a: "no_growth s s'" by (rule process_one_no_growth[OF Inr])
    have b: "no_growth s' (snd (process_sigs sha256Hex cfg clk enhanced (i + 1) sigs s'))"
      by (rule Cons.IH)
    show ?thesis using no_growth_trans[OF a b] Inr by simp
  qed
qed

lemma markFailed_no_growth: "no_growth s (markFailed e tnow sigs s)"
proof -
  from markFailed_effect[of e tnow sigs s]
  obtain r o' where keys: "map fst (pending (markFailed e tnow sigs s)) = map fst (pending s)"
    and fr: "markFailed e tnow sigs s =
         s\<lparr> pending := pending (markFailed e tnow sigs s),
            enhancedRateLimited := r, enhancedOtherErrors := o' \<rparr>"
    by blast
  have "pendingOrder (markFailed e tnow sigs s) = pendingOrder s"
    "evictIdx (markFailed e tnow sigs s) = evictIdx s"
    by (subst fr, simp)+
  then show ?thesis using keys by (intro no_growth_same_keys)
qed

lemma no_growth_flag: "no_growth s s' \<Longrightarrow> no_growth s (s'\<lparr> inFlight := b \<rparr>)"
  by (simp add: no_growth_def del: set_map)

lemma batcherFinish_no_growth:
  "no_growth s (batcherFinish sha256Hex cfg clk tnow sigs res s)"
proof (cases res)
  case (Inl e)
  have "batcherFinish sha256Hex cfg clk tnow sigs res s
      = (markFailed e tnow sigs s)\<lparr> inFlight := False \<rparr>"
    by (simp add: batcherFinish_def Inl)
  then show ?thesis using no_growth_flag[OF markFailed_no_growth] by simp
next
  case (Inr enhanced)
  obtain r s2 where ps: "process_sigs sha256Hex cfg clk enhanced 0 sigs s = (r, s2)"
    by (cases "process_sigs sha256Hex cfg clk enhanced 0 sigs s")
  have a: "no_growth s s2"
    using process_sigs_no_growth[of s sha256Hex cfg clk enhanced 0 sigs] ps by simp
  show ?thesis
  proof (cases r)
    case None
    have "batcherFinish sha256Hex cfg clk tnow sigs res s = s2\<lparr> inFlight := False \<rparr>"
      by (simp add: batcherFinish_def Inr ps None)
    then show ?thesis using no_growth_flag[OF a] by simp
  next
    case (Some e)
    have "batcherFinish sha256Hex cfg clk tnow sigs res s
        = (markFailed e tnow sigs s2)\<lparr> inFlight := False \<rparr>"
      by (simp add: batcherFinish_def Inr ps Some)
    then show ?thesis
      using no_growth_flag[OF no_growth_trans[OF a markFailed_no_growth]] by simp
  qed
qed

lemma select_no_growth: "no_growth s (fst (selectReadyBatch cfg now s))"
proof -
  obtain s' out where sel: "selectReadyBatch cfg now s = (s', out)"
    by (cases "selectReadyBatch cfg now s")
  have fr: "s' = s\<lparr> scanIdx := scanIdx s' \<rparr>" by (rule selectReadyBatch_sound(3)[OF sel])
  have "pending s' = pending s" "pendingOrder s' = pendingOrder s" "evictIdx s' = evictIdx s"
    by (subst fr, simp)+
  then show ?thesis unfolding sel by (simp add: no_growth_def)
qed

lemma reachable_buffer_inv:
  assumes "0 < MAX_PENDING cfg" "reachable cfg s"
  shows "buffer_inv cfg s"
  using assms(2)
proof (induction rule: reachable.induct)
  case reach_init
  show ?case by (simp add: buffer_inv_def init_state_def)
next
  case (reach_ingest s c)
  then show ?case using buffer_inv_ingest[OF _ assms(1)] by blast
next
  case (reach_select s now)
  then show ?case using no_growth_inv[OF _ select_no_growth] by blast
next
  case (reach_flag s b)
  then show ?case using no_growth_inv[OF _ no_growth_flag[OF no_growth_refl]] by blast
next
  case (reach_finish s sha256Hex clk tnow sigs res)
  then show ?case using no_growth_inv[OF _ batcherFinish_no_growth] by blast
qed

lemma reachable_tick:
  assumes "reachable cfg s"
  shows "reachable cfg (batcherTick sha256Hex cfg postJson stopAtMs now clk tnow s)"
proof -
  obtain s1 sigs where sel: "selectReadyBatch cfg now s = (s1, sigs)"
    by (cases "selectReadyBatch cfg now s")
  have r1: "reachable cfg s1" using reach_select[OF assms, of now] sel by simp
  have r2: "reachable cfg (s1\<lparr> inFlight := True \<rparr>)" by (rule reach_flag[OF r1])
  have r3: "reachable cfg (batcherFinish sha256Hex cfg clk tnow sigs
       (fst (fetchEnhancedBatch postJson sigs)) (s1\<lparr> inFlight := True \<rparr>))"
    by (rule reach_finish[OF r2])
  show ?thesis using assms r1 r3 by (simp add: batcherTick_def sel)
qed

lemma pending_bounded_in_every_run:
  "0 < MAX_PENDING cfg \<Longrightarrow> reachable cfg s \<Longrightarrow> length (pending s) \<le> MAX_PENDING cfg"
  using reachable_buffer_inv by (simp add: buffer_inv_def)

subsection \<open>Interleaved runs: eviction through a stale slot\<close>

lemma ingest_fill_from:
  assumes "INGRESS_SAMPLE_PCT cfg = 1"
    and "distinct (map fst (pending s) @ map call_sig calls)"
    and "[] \<notin> set (map call_sig calls)"
    and "length (pending s) + length calls \<le> MAX_PENDING cfg"
  shows "foldl (ingest cfg) s calls =
           s\<lparr> pending := pending s @ map (entry_of cfg) calls,
              pendingOrder := pendingOrder s @ map call_sig calls,
              ingested := ingested s + length calls \<rparr>"
  using assms(2-)
proof (induction calls rule: rev_induct)
  case Nil
  show ?case by simp
next
  case (snoc c calls)
  let ?s = "foldl (ingest cfg) s calls"
  have IH: "?s = s\<lparr> pending := pending s @ map (entry_of cfg) calls,
              pendingOrder := pendingOrder s @ map call_sig calls,
              ingested := ingested s + length calls \<rparr>"
    using snoc by simp
  have p: "pending ?s = pending s @ map (entry_of cfg) calls" by (subst IH) simp
  have keys: "map fst (pending ?s) = map fst (pending s) @ map call_sig calls"
    by (simp add: p entry_of_def comp_def)
  have acc: "accepted cfg ?s c"
    using snoc.prems assms(1) keys by (auto simp: accepted_def map_has_def)
  have room: "length (pending ?s) < MAX_PENDING cfg" using snoc.prems p by simp
  have "foldl (ingest cfg) s (calls @ [c]) = ingest cfg ?s c" by simp
  also have "\<dots> = ?s\<lparr> pending := pending ?s @ [entry_of cfg c],
       pendingOrder := pendingOrder ?s @ [call_sig c], ingested := ingested ?s + 1\<rparr>"
    by (rule ingest_accepted_room[OF acc room])
  also have "\<dots> = s\<lparr> pending := pending s @ map (entry_of cfg) (calls @ [c]),
              pendingOrder := pendingOrder s @ map call_sig (calls @ [c]),
              ingested := ingested s + length (calls @ [c]) \<rparr>"
    by (subst (1 2 3 4) IH) simp
  finally show ?case .
qed

lemma ingest_evicts_slot:
  assumes acc: "accepted cfg s c" and full: "MAX_PENDING cfg \<le> length (pending s)"
    and lt: "evictIdx s < length (pendingOrder s)"
    and has: "map_has (pending s) (pendingOrder s ! evictIdx s)"
  shows "pending (ingest cfg s c)
           = map_delete (pendingOrder s ! evictIdx s) (pending s) @ [entry_of cfg c]"
    and "evicted (ingest cfg s c) = evicted s + 1"
proof -
  let ?k = "pendingOrder s ! evictIdx s"
  let ?s1 = "compact (evict_loop s)"
  have p1: "pending ?s1 = map_delete ?k (pending s)" "evicted ?s1 = evicted s + 1"
    by (simp_all add: compact_fields evict_loop_hit[OF lt has])
  have nh: "\<not> map_has (map_delete ?k (pending s)) (call_sig c)"
    using acc by (auto simp: accepted_def map_has_def map_delete_def)
  have ing: "ingest cfg s c = ?s1\<lparr> pending := map_delete ?k (pending s) @ [entry_of cfg c],
       pendingOrder := pendingOrder ?s1 @ [call_sig c], ingested := ingested ?s1 + 1 \<rparr>"
    using acc full p1 nh
    by (auto simp: accepted_def ingest_def tryIngestSignature_def entry_of_def map_set_absent Let_def)
  show "pending (ingest cfg s c) = map_delete ?k (pending s) @ [entry_of cfg c]"
    by (subst ing) simp
  show "evicted (ingest cfg s c) = evicted s + 1" by (subst ing) (simp add: p1)
qed

lemma cap1000_consts:
  "BATCH_SIZE cfg_cap1000 = 1" "maxScan cfg_cap1000 = 500" "MAX_PENDING cfg_cap1000 = 1000"
  "INGRESS_SAMPLE_PCT cfg_cap1000 = 1" "INITIAL_DELAY_MS cfg_cap1000 = 1500"
  by (simp_all add: cfg_cap1000_def load_config_def default_env_def maxScan_def clampInt_def)

lemma cap1000_first_ingest: "ingest cfg_cap1000 init_state first_call = one_pending"
  by (simp add: one_pending_def ingest_def tryIngestSignature_def cap1000_consts
      init_state_def map_has_def first_call_def new_entry_def slot_or_null_def
      str_or_null_def)

lemma cap1000_tick:
  "batcherTick sha256Hex cfg_cap1000 resolves 3600000 2000 (\<lambda>i. 2100) 2100 one_pending =
     one_pending\<lparr> scanIdx := 1, pending := [],
       fpStats := bumpFingerprint 2100 (enh_fingerprint sha256Hex tipped_tx) ''payer1''
                    \<lparr> fee = 5000, tip = 10000, stable = 0 \<rparr>
                    \<lparr> ex_sig = ''5VERv8'',
                      ex_programs = [''JUP6LkbZbjS1jKKwapdHNy74zcZ3tLUZoi5QNyVTaV4''],
                      ex_mints = [], ex_typeSource = ''SWAP:JUPITER'' \<rparr> [],
       programStats := bumpProgram ''JUP6LkbZbjS1jKKwapdHNy74zcZ3tLUZoi5QNyVTaV4''
                    \<lparr> fee = 5000, tip = 10000, stable = 0 \<rparr> [],
       outStream := [make_record sha256Hex cfg_cap1000 ''5VERv8'' (snd (hd (pending one_pending)))
                       tipped_tx 5000 10000
                       [(''96gYZGLnJYVFmbjzopPSU6QiEV5fGqZNyN9nmNhvrZU5'', 10000)]],
       processed := 1 \<rparr>"
proof -
  have sel: "selectReadyBatch cfg_cap1000 2000 one_pending
      = (one_pending\<lparr> scanIdx := 1 \<rparr>, [''5VERv8''])"
    by (simp add: one_pending_def selectReadyBatch_def select_loop_step select_loop_stop
        cap1000_consts init_state_def scan_pos_def ready_at_def map_get_def)
  have sg: "enh_signature tipped_tx = ''5VERv8''" "enh_feePayer tipped_tx = ''payer1''"
    "enh_type tipped_tx = ''SWAP''" "enh_source tipped_tx = ''JUPITER''"
    by (simp_all add: tipped_tx_def)
  show ?thesis
    unfolding batcherTick_def sel fetch_resolves
    by (simp add: one_pending_def init_state_def batcherFinish_def process_one_def bySig_get_def
        map_get_def sg processEnhanced_ok[OF tipped_tx_facts(1,2)] tipped_tx_facts
        map_delete_def)
qed

lemma other_calls_sigs:
  "distinct (map call_sig other_calls)" "[] \<notin> set (map call_sig other_calls)"
  "''5VERv8'' \<notin> set (map call_sig other_calls)" "''3Zq9'' \<notin> set (map call_sig other_calls)"
  "length other_calls = 999"
proof -
  have "inj_on (\<lambda>i. replicate (Suc i) CHR ''1'') (set [0..<999])"
    by (rule inj_onI) (metis length_replicate nat.inject)
  then show "distinct (map call_sig other_calls)"
    by (simp add: other_calls_def comp_def distinct_map)
  show "[] \<notin> set (map call_sig other_calls)" by (auto simp: other_calls_def)
  have "CHR ''5'' \<notin> set (replicate (Suc i) CHR ''1'')" for i by simp
  then have "x \<notin> set (map call_sig other_calls)" if "x = ''5VERv8''" for x
    using that by (auto simp: other_calls_def)
  then show "''5VERv8'' \<notin> set (map call_sig other_calls)" by simp
  have "CHR ''3'' \<notin> set (replicate (Suc i) CHR ''1'')" for i by simp
  then have "x \<notin> set (map call_sig other_calls)" if "x = ''3Zq9''" for x
    using that by (auto simp: other_calls_def)
  then show "''3Zq9'' \<notin> set (map call_sig other_calls)" by simp
  show "length other_calls = 999" by (simp add: other_calls_def)
qed

lemma stale_slot_run_buffer:
  "pending (stale_slot_run sha256Hex)
     = map (entry_of cfg_cap1000) other_calls @ [entry_of cfg_cap1000 second_call]"
  "pendingOrder (stale_slot_run sha256Hex)
     = ''5VERv8'' # map call_sig other_calls @ [''5VERv8'']"
  "evictIdx (stale_slot_run sha256Hex) = 0"
  "evicted (stale_slot_run sha256Hex) = 0"
proof -
  let ?t = "batcherTick sha256Hex cfg_cap1000 resolves 3600000 2000 (\<lambda>i. 2100) 2100 one_pending"
  have t: "pending ?t = []" "pendingOrder ?t = [''5VERv8'']" "evictIdx ?t = 0" "evicted ?t = 0"
    unfolding cap1000_tick by (simp_all add: one_pending_def init_state_def)
  have sc: "call_sig second_call = ''5VERv8''" by (simp add: second_call_def first_call_def)
  have d: "distinct (map fst (pending ?t) @ map call_sig (other_calls @ [second_call]))"
    using other_calls_sigs(1,3) by (simp add: t sc)
  have n: "[] \<notin> set (map call_sig (other_calls @ [second_call]))"
    using other_calls_sigs(2) by (simp add: sc)
  have l: "length (pending ?t) + length (other_calls @ [second_call]) \<le> MAX_PENDING cfg_cap1000"
    by (simp add: t other_calls_sigs(5) cap1000_consts)
  have run: "stale_slot_run sha256Hex = foldl (ingest cfg_cap1000) ?t (other_calls @ [second_call])"
    by (simp add: stale_slot_run_def cap1000_first_ingest)
  note fill = ingest_fill_from[OF cap1000_consts(4) d n l]
  show "pending (stale_slot_run sha256Hex)
     = map (entry_of cfg_cap1000) other_calls @ [entry_of cfg_cap1000 second_call]"
    unfolding run by (subst fill) (simp add: t)
  show "pendingOrder (stale_slot_run sha256Hex)
     = ''5VERv8'' # map call_sig other_calls @ [''5VERv8'']"
    unfolding run by (subst fill) (simp add: t sc)
  show "evictIdx (stale_slot_run sha256Hex) = 0"
    unfolding run by (subst fill) (simp add: t)
  show "evicted (stale_slot_run sha256Hex) = 0"
    unfolding run by (subst fill) (simp add: t)
qed

lemma stale_slot_run_reachable: "reachable cfg_cap1000 (stale_slot_run sha256Hex)"
proof -
  have r: "reachable cfg (foldl (ingest cfg) s calls)" if "reachable cfg s" for cfg s calls
    using that by (induction calls rule: rev_induct) (simp_all add: reach_ingest)
  show ?thesis
    unfolding stale_slot_run_def
    by (intro r reachable_tick reach_ingest reach_init)
qed

text \<open>
  Claim C1. An accepted call at capacity is meant to evict the oldest entry still
  present. In the run \<open>stale_slot_run\<close> the buffer holds 1000 entries, the capacity; its
  oldest entry is \<^verbatim>\<open>1\<close>, seen at 3000, its newest \<^verbatim>\<open>5VERv8\<close>, seen again at 5000
  after a tick had enriched it. The next accepted call reads the slot that the first
  sighting of \<^verbatim>\<open>5VERv8\<close> left in \<^verbatim>\<open>pendingOrder\<close> and deletes the newest entry: the
  oldest one stays at the head of the map, and \<open>evicted\<close> counts one eviction.
\<close>

theorem eviction_removes_reingested_entry:
  "MAX_PENDING cfg_cap1000 = 1000
   \<and> length (pending (stale_slot_run sha256Hex)) = 1000
   \<and> accepted cfg_cap1000 (stale_slot_run sha256Hex) overflow_call
   \<and> fst (hd (pending (stale_slot_run sha256Hex))) = ''1''
   \<and> seenAtMs (snd (hd (pending (stale_slot_run sha256Hex)))) = 3000
   \<and> fst (last (pending (stale_slot_run sha256Hex))) = ''5VERv8''
   \<and> seenAtMs (snd (last (pending (stale_slot_run sha256Hex)))) = 5000
   \<and> pending (ingest cfg_cap1000 (stale_slot_run sha256Hex) overflow_call)
       = butlast (pending (stale_slot_run sha256Hex)) @ [entry_of cfg_cap1000 overflow_call]
   \<and> pending (ingest cfg_cap1000 (stale_slot_run sha256Hex) overflow_call)
       \<noteq> tl (pending (stale_slot_run sha256Hex)) @ [entry_of cfg_cap1000 overflow_call]
   \<and> hd (pending (ingest cfg_cap1000 (stale_slot_run sha256Hex) overflow_call))
       = hd (pending (stale_slot_run sha256Hex))
   \<and> \<not> map_has (pending (ingest cfg_cap1000 (stale_slot_run sha256Hex) overflow_call)) ''5VERv8''
   \<and> evicted (ingest cfg_cap1000 (stale_slot_run sha256Hex) overflow_call)
       = evicted (stale_slot_run sha256Hex) + 1"
proof -
  let ?s = "stale_slot_run sha256Hex"
  let ?E = "map (entry_of cfg_cap1000) other_calls"
  note b = stale_slot_run_buffer[of sha256Hex]
  have sc: "call_sig second_call = ''5VERv8''" "call_now second_call = 5000"
    by (simp_all add: second_call_def first_call_def)
  have oc: "call_sig overflow_call = ''3Zq9''" by (simp add: overflow_call_def)
  have keysE: "map fst ?E = map call_sig other_calls" by (simp add: entry_of_def comp_def)
  have len: "length (pending ?s) = 1000" by (simp add: b other_calls_sigs(5))
  have acc: "accepted cfg_cap1000 ?s overflow_call"
    using other_calls_sigs(4)
    by (simp add: accepted_def oc cap1000_consts map_has_def b keysE) (simp add: entry_of_def sc)
  have one: "other_calls \<noteq> []" using other_calls_sigs(5) by auto
  have o0: "call_sig (hd other_calls) = ''1''" "call_now (hd other_calls) = 3000"
    by (simp_all add: other_calls_def hd_map)
  have hdE: "hd (pending ?s) = entry_of cfg_cap1000 (hd other_calls)"
    unfolding b using one by (simp add: hd_append hd_map)
  have lt: "evictIdx ?s < length (pendingOrder ?s)" by (simp add: b)
  have k: "pendingOrder ?s ! evictIdx ?s = ''5VERv8''" by (simp add: b)
  have has: "map_has (pending ?s) (pendingOrder ?s ! evictIdx ?s)"
    unfolding k by (simp add: b map_has_def entry_of_def sc)
  have "\<forall>p \<in> set ?E. fst p \<noteq> ''5VERv8''"
    using other_calls_sigs(3) keysE by (metis image_eqI list.set_map)
  then have fE: "filter (\<lambda>p. fst p \<noteq> ''5VERv8'') ?E = ?E" by (simp add: filter_id_conv)
  have del: "map_delete ''5VERv8'' (pending ?s) = ?E"
    by (simp add: b map_delete_def fE) (simp add: entry_of_def sc)
  have full: "MAX_PENDING cfg_cap1000 \<le> length (pending ?s)" by (simp add: len cap1000_consts)
  note ev = ingest_evicts_slot[OF acc full lt has, unfolded k del]
  have ne: "?E \<noteq> []" using other_calls_sigs(5) by auto
  have diff: "?E @ [entry_of cfg_cap1000 overflow_call]
       \<noteq> tl (pending ?s) @ [entry_of cfg_cap1000 overflow_call]"
  proof
    assume "?E @ [entry_of cfg_cap1000 overflow_call]
       = tl (pending ?s) @ [entry_of cfg_cap1000 overflow_call]"
    then have "?E = tl ?E @ [entry_of cfg_cap1000 second_call]"
      unfolding b using ne by simp
    then have "entry_of cfg_cap1000 second_call \<in> set ?E"
      by (metis in_set_conv_decomp)
    then have "fst (entry_of cfg_cap1000 second_call) \<in> set (map fst ?E)"
      by (metis image_eqI list.set_map)
    then show False using other_calls_sigs(3) unfolding keysE by (simp add: entry_of_def sc)
  qed
  have nh: "\<not> map_has (?E @ [entry_of cfg_cap1000 overflow_call]) ''5VERv8''"
    using other_calls_sigs(3) by (simp add: map_has_def keysE) (simp add: entry_of_def oc)
  have h1: "fst (hd (pending ?s)) = ''1''" "seenAtMs (snd (hd (pending ?s))) = 3000"
    unfolding hdE by (simp_all add: entry_of_def new_entry_def o0)
  have l1: "fst (last (pending ?s)) = ''5VERv8''" "seenAtMs (snd (last (pending ?s))) = 5000"
    unfolding b by (simp_all add: entry_of_def new_entry_def sc)
  have bl: "butlast (pending ?s) = ?E" unfolding b by simp
  have hd2: "hd (?E @ [entry_of cfg_cap1000 overflow_call]) = hd (pending ?s)"
    unfolding b using ne by (simp add: hd_append)
  have e0: "evicted ?s = 0" by (rule b(4))
  show ?thesis
    unfolding ev bl e0
    using len acc h1 l1 diff nh hd2 cap1000_consts(3)
    by simp
qed

end
